theory Spec2Isabelle
  imports Main "HOL-Library.Word"
begin

section \<open>Bytes, errors and the transport\<close>

text \<open>
  A Go \<open>byte\<close> is an 8-bit value; \<open>char\<close> is HOL's 8-bit character type, so a
  \<open>[]byte\<close> is a \<open>char list\<close>.  The error values of package \<open>netconf\<close> are
  \<open>ErrFraming\<close> and \<open>ErrCapabilitiesExchange\<close>; \<open>EOF\<close> is \<open>io.EOF\<close>; every other
  error of the transport or of \<open>encoding/xml\<close> is an \<open>OtherError\<close> with its message.
  \<open>Panic\<close> is not an error value: it stands for a run-time panic of the Go program (a
  slice bound out of range, a nil pointer dereference), which ends the call.
\<close>

type_synonym byte = char

datatype error = EOF | ErrFraming | ErrCapabilitiesExchange | OtherError string | Panic string

text \<open>
  The read half of the transport (an \<open>io.Reader\<close>) is the list of what its next
  \<open>Read\<close> calls will find: a segment of bytes that has arrived, or a failure.  A
  \<open>Read\<close> into a buffer of \<open>k\<close> bytes returns at most \<open>k\<close> bytes of the first
  segment (a short read when the segment is shorter), a pending failure, or \<open>io.EOF\<close>
  once nothing is left.  As \<open>io.Reader\<close> asks of its implementations, a read into a
  non-empty buffer never returns zero bytes without an error: empty segments are skipped.
\<close>

datatype rx_event = Data "byte list" | Fault error

type_synonym reader = "rx_event list"

fun reader_Read :: "nat \<Rightarrow> reader \<Rightarrow> (error + byte list) \<times> reader" where
  "reader_Read k [] = (Inl EOF, [])"
| "reader_Read k (Fault e # es) = (Inl e, es)"
| "reader_Read k (Data s # es) =
     (if s = [] then reader_Read k es
      else (Inr (take k s), if k < length s then Data (drop k s) # es else es))"

text \<open>\<open>c.reader.Read(p[:1])\<close>: the one byte read, or the error.\<close>

definition reader_Read1 :: "reader \<Rightarrow> (error + byte) \<times> reader" where
  "reader_Read1 r =
     (case reader_Read 1 r of
        (Inl e, r') \<Rightarrow> (Inl e, r')
      | (Inr d, r') \<Rightarrow> (Inr (hd d), r'))"

text \<open>The bytes still to come, and a size that every successful read decreases.\<close>

fun rx_bytes :: "rx_event \<Rightarrow> byte list" where
  "rx_bytes (Data s) = s"
| "rx_bytes (Fault e) = []"

definition flat :: "reader \<Rightarrow> byte list" where
  "flat r = concat (map rx_bytes r)"

fun rx_size :: "reader \<Rightarrow> nat" where
  "rx_size [] = 0"
| "rx_size (Data s # es) = Suc (length s + rx_size es)"
| "rx_size (Fault e # es) = Suc (rx_size es)"

text \<open>
  The write half (an \<open>io.Writer\<close>): the bytes written so far, and the outcomes of the
  next \<open>Write\<close> calls (\<open>Some e\<close>: that call fails with \<open>e\<close> and writes nothing); a
  call beyond the list succeeds.
\<close>

record writer =
  sent :: "byte list"
  faults :: "error option list"

definition writer_Write :: "byte list \<Rightarrow> writer \<Rightarrow> (nat \<times> error option) \<times> writer" where
  "writer_Write p w =
     (case faults w of
        [] \<Rightarrow> ((length p, None), w\<lparr>sent := sent w @ p\<rparr>)
      | None # fs \<Rightarrow> ((length p, None), w\<lparr>sent := sent w @ p, faults := fs\<rparr>)
      | Some e # fs \<Rightarrow> ((0, Some e), w\<lparr>faults := fs\<rparr>))"

section \<open>Framing, NETCONF 1.0\<close>

text \<open>The NETCONF 1.0 message delimiter sequence.\<close>

definition eom :: "byte list" where
  "eom = '']]>]]>''"

definition framerV10_Write :: "byte list \<Rightarrow> writer \<Rightarrow> (nat \<times> error option) \<times> writer" where
  "framerV10_Write p w = writer_Write p w"

definition framerV10_Close :: "writer \<Rightarrow> error option \<times> writer" where
  "framerV10_Close w = (case writer_Write eom w of ((n, err), w') \<Rightarrow> (err, w'))"

text \<open>
  \<open>unframerV10\<close>: the window \<open>buffer\<close> of \<open>len(eom)\<close> bytes, of which the first
  \<open>len\<close> are filled, and the sticky error.
\<close>

record unframerV10 =
  buffer10 :: "byte list"
  len10 :: nat
  err10 :: "error option"

definition newUnframerV10 :: unframerV10 where
  "newUnframerV10 = \<lparr>buffer10 = replicate (length eom) (CHR 0x00), len10 = 0, err10 = None\<rparr>"

lemma reader_Read_shrinks:
  "reader_Read k r = (Inr d, r') \<Longrightarrow> 0 < k \<Longrightarrow>
     d \<noteq> [] \<and> length d \<le> k \<and> length d + rx_size r' \<le> rx_size r \<and> rx_size r' < rx_size r"
  by (induction k r rule: reader_Read.induct) (auto split: if_splits)

text \<open>
  The loop \<open>for c.len < len(c.buffer)\<close>: read into \<open>c.buffer[c.len:]\<close> until the
  window is full; \<open>io.EOF\<close> becomes \<open>ErrFraming\<close>, and the error is kept in \<open>c.err\<close>.
\<close>

function unframerV10_fill :: "unframerV10 \<Rightarrow> reader \<Rightarrow> error option \<times> unframerV10 \<times> reader" where
  "unframerV10_fill c r =
     (if len10 c < length (buffer10 c) then
        (case reader_Read (length (buffer10 c) - len10 c) r of
           (Inl e, r') \<Rightarrow>
             (let err = (if e = EOF then ErrFraming else e)
              in (Some err, c\<lparr>err10 := Some err\<rparr>, r'))
         | (Inr d, r') \<Rightarrow>
             unframerV10_fill
               (c\<lparr>buffer10 := take (len10 c) (buffer10 c) @ d
                                 @ drop (len10 c + length d) (buffer10 c),
                   len10 := len10 c + length d\<rparr>) r')
      else (None, c, r))"
  by pat_completeness auto
termination
  by (relation "measure (\<lambda>(c, r). rx_size r)") (auto dest: reader_Read_shrinks [OF sym])

declare unframerV10_fill.simps [simp del]

text \<open>
  The search loop: the first \<open>i\<close> with \<open>c.buffer[i:]\<close> equal to \<open>eom[:len(eom)-i]\<close>,
  or \<open>len(c.buffer)\<close> when there is none.
\<close>

function unframerV10_scan :: "byte list \<Rightarrow> nat \<Rightarrow> nat" where
  "unframerV10_scan buf i =
     (if i < length buf then
        (if drop i buf = take (length eom - i) eom then i else unframerV10_scan buf (i + 1))
      else i)"
  by pat_completeness auto
termination
  by (relation "measure (\<lambda>(buf, i). length buf - i)") auto

declare unframerV10_scan.simps [simp del]

text \<open>
  \<open>Read(p)\<close> with \<open>len(p) = n\<close>: the bytes copied into \<open>p\<close>, or the error.  The
  window is then shifted by \<open>copy(c.buffer, c.buffer[len:])\<close>, which leaves the old
  bytes in the positions it does not overwrite.
\<close>

definition unframerV10_Read ::
  "nat \<Rightarrow> unframerV10 \<Rightarrow> reader \<Rightarrow> (error + byte list) \<times> unframerV10 \<times> reader" where
  "unframerV10_Read n c r =
     (case err10 c of
        Some e \<Rightarrow> (Inl e, c, r)
      | None \<Rightarrow>
         (case unframerV10_fill c r of
            (Some e, c1, r1) \<Rightarrow> (Inl e, c1, r1)
          | (None, c1, r1) \<Rightarrow>
             (let i = unframerV10_scan (buffer10 c1) 0 in
              if i = 0 then (Inl EOF, c1\<lparr>err10 := Some EOF\<rparr>, r1)
              else
                (let l = min n i;
                     out = take l (buffer10 c1);
                     rest = drop l (buffer10 c1)
                 in (Inr out,
                     c1\<lparr>buffer10 := rest @ drop (length rest) (buffer10 c1),
                        len10 := length rest\<rparr>,
                     r1)))))"


lemma unframerV10_fill_full:
  "unframerV10_fill c r = (None, c1, r1) \<Longrightarrow>
     length (buffer10 c1) \<le> len10 c1 \<and> len10 c1 + rx_size r1 \<le> len10 c + rx_size r"
proof (induction c r rule: unframerV10_fill.induct)
  case (1 c r)
  show ?case
  proof (cases "len10 c < length (buffer10 c)")
    case False
    with "1.prems" show ?thesis by (simp add: unframerV10_fill.simps [of c r])
  next
    case True
    obtain res r' where rd: "reader_Read (length (buffer10 c) - len10 c) r = (res, r')"
      by (cases "reader_Read (length (buffer10 c) - len10 c) r")
    show ?thesis
    proof (cases res)
      case (Inl e)
      with True rd "1.prems" show ?thesis
        by (simp add: unframerV10_fill.simps [of c r] Let_def)
    next
      case (Inr d)
      let ?c = "c\<lparr>buffer10 := take (len10 c) (buffer10 c) @ d
                                 @ drop (len10 c + length d) (buffer10 c),
                   len10 := len10 c + length d\<rparr>"
      from rd Inr True have sh: "length d + rx_size r' \<le> rx_size r"
        using reader_Read_shrinks [of "length (buffer10 c) - len10 c" r d r'] by simp
      from True rd Inr "1.prems" have "unframerV10_fill ?c r' = (None, c1, r1)"
        by (simp add: unframerV10_fill.simps [of c r])
      with "1.IH" [OF True rd [symmetric, unfolded Inr]]
      have "length (buffer10 c1) \<le> len10 c1 \<and>
            len10 c1 + rx_size r1 \<le> len10 ?c + rx_size r'"
        by blast
      with sh show ?thesis by simp
    qed
  qed
qed

lemma unframerV10_scan_Nil: "unframerV10_scan [] 0 = 0"
  by (simp add: unframerV10_scan.simps [of "[]" 0])

lemma unframerV10_Read_progress:
  assumes "unframerV10_Read n c r = (Inr d, c', r')" and "0 < n"
  shows "len10 c' + rx_size r' < len10 c + rx_size r"
proof -
  from assms(1) have e: "err10 c = None"
    by (cases "err10 c") (simp_all add: unframerV10_Read_def)
  obtain x c1 r1 where f: "unframerV10_fill c r = (x, c1, r1)"
    by (cases "unframerV10_fill c r")
  from assms(1) e f have x: "x = None"
    by (cases x) (simp_all add: unframerV10_Read_def)
  let ?i = "unframerV10_scan (buffer10 c1) 0"
  from assms(1) e f x have i: "?i \<noteq> 0"
    by (cases "?i = 0") (simp_all add: unframerV10_Read_def Let_def)
  then have ne: "buffer10 c1 \<noteq> []"
    using unframerV10_scan_Nil by auto
  from assms(1) e f x i have c': "len10 c' = length (buffer10 c1) - min n ?i" and r': "r' = r1"
    by (auto simp: unframerV10_Read_def Let_def)
  from ne i assms(2) have "length (buffer10 c1) - min n ?i < length (buffer10 c1)"
    by (cases "buffer10 c1") auto
  with unframerV10_fill_full [OF f [unfolded x]] c' r' show ?thesis by simp
qed

text \<open>
  \<open>Close\<close>: read into a 16-byte dummy buffer until \<open>Read\<close> fails; \<open>io.EOF\<close> is
  the end of the message and gives \<open>nil\<close>, every other error is returned.
\<close>

function unframerV10_Close :: "unframerV10 \<Rightarrow> reader \<Rightarrow> error option \<times> unframerV10 \<times> reader" where
  "unframerV10_Close c r =
     (case unframerV10_Read 16 c r of
        (Inl e, c', r') \<Rightarrow> (if e = EOF then (None, c', r') else (Some e, c', r'))
      | (Inr d, c', r') \<Rightarrow> unframerV10_Close c' r')"
  by pat_completeness auto
termination
  by (relation "measure (\<lambda>(c, r). len10 c + rx_size r)")
     (auto dest: unframerV10_Read_progress [OF sym])

declare unframerV10_Close.simps [simp del]

section \<open>Framing, NETCONF 1.1\<close>

text \<open>
  Go's \<open>int\<close> is a 64-bit two's complement integer on the platforms the library
  targets: \<open>int64 x\<close> is the value the machine keeps of the mathematical result \<open>x\<close>.
\<close>

definition int64 :: "int \<Rightarrow> int" where
  "int64 x = (x + 2 ^ 63) mod 2 ^ 64 - 2 ^ 63"

text \<open>\<open>strconv.Itoa\<close>: the decimal digits of an integer, with a sign when negative.\<close>

fun decimal :: "nat \<Rightarrow> string" where
  "decimal n = (if n < 10 then [char_of (48 + n)] else decimal (n div 10) @ [char_of (48 + n mod 10)])"

declare decimal.simps [simp del]

definition Itoa :: "int \<Rightarrow> string" where
  "Itoa i = (if i < 0 then CHR ''-'' # decimal (nat (- i)) else decimal (nat i))"

definition LF :: byte where
  "LF = CHR 0x0A"

definition framerV11_Write :: "byte list \<Rightarrow> writer \<Rightarrow> (nat \<times> error option) \<times> writer" where
  "framerV11_Write p w =
     (if length p > 0 then
        (case writer_Write ([LF, CHR ''#''] @ Itoa (int (length p)) @ [LF]) w of
           ((n, Some e), w') \<Rightarrow> ((0, Some e), w')
         | ((n, None), w') \<Rightarrow> writer_Write p w')
      else writer_Write p w)"

definition framerV11_Close :: "writer \<Rightarrow> error option \<times> writer" where
  "framerV11_Close w =
     (case writer_Write [LF, CHR ''#'', CHR ''#'', LF] w of ((n, err), w') \<Rightarrow> (err, w'))"

text \<open>\<open>unframerV11\<close>: the bytes left of the current chunk, and the sticky error.\<close>

record unframerV11 =
  len11 :: int
  err11 :: "error option"

definition newUnframerV11 :: unframerV11 where
  "newUnframerV11 = \<lparr>len11 = 0, err11 = None\<rparr>"

text \<open>
  The start of a chunk header, when \<open>c.len == 0\<close>: a line feed and a hash are read,
  one byte at a time; \<open>io.EOF\<close> and any other byte give \<open>ErrFraming\<close>.
\<close>

definition eof_is_framing :: "error \<Rightarrow> error" where
  "eof_is_framing e = (if e = EOF then ErrFraming else e)"

definition unframerV11_start :: "reader \<Rightarrow> error option \<times> reader" where
  "unframerV11_start r =
     (case reader_Read1 r of
        (Inr b, r1) \<Rightarrow>
          (if b = LF then
             (case reader_Read1 r1 of
                (Inr b2, r2) \<Rightarrow> (if b2 \<noteq> CHR ''#'' then (Some ErrFraming, r2) else (None, r2))
              | (Inl e, r2) \<Rightarrow> (Some (eof_is_framing e), r2))
           else (Some ErrFraming, r1))
      | (Inl e, r1) \<Rightarrow> (Some (eof_is_framing e), r1))"

text \<open>
  The loop \<open>for err == nil\<close> over the rest of the header, with \<open>l\<close> the value of
  \<open>c.len\<close>: a hash while \<open>c.len == 0\<close> must be followed by a line feed and ends the
  message (\<open>io.EOF\<close>); a digit is added to \<open>c.len\<close>; a line feed with \<open>c.len > 0\<close>
  leaves the loop; everything else is \<open>ErrFraming\<close>.
\<close>

definition is_digit :: "byte \<Rightarrow> bool" where
  "is_digit b = (48 \<le> (of_char b :: nat) \<and> (of_char b :: nat) \<le> 57)"

lemma reader_Read1_shrinks:
  "reader_Read1 r = (Inr b, r') \<Longrightarrow> rx_size r' < rx_size r"
  by (auto simp: reader_Read1_def split: prod.splits sum.splits dest: reader_Read_shrinks)

function unframerV11_header :: "int \<Rightarrow> reader \<Rightarrow> error option \<times> int \<times> reader" where
  "unframerV11_header l r =
     (case reader_Read1 r of
        (Inl e, r1) \<Rightarrow> (Some (eof_is_framing e), l, r1)
      | (Inr b, r1) \<Rightarrow>
          (if l = 0 \<and> b = CHR ''#'' then
             (case reader_Read1 r1 of
                (Inr b2, r2) \<Rightarrow> (if b2 = LF then (Some EOF, l, r2) else (Some ErrFraming, l, r2))
              | (Inl e, r2) \<Rightarrow> (Some (eof_is_framing e), l, r2))
           else if is_digit b then
             unframerV11_header (int64 (l * 10 + (int (of_char b) - 48))) r1
           else if b = LF \<and> l > 0 then (None, l, r1)
           else (Some ErrFraming, l, r1)))"
  by pat_completeness auto
termination
  by (relation "measure (\<lambda>(l, r). rx_size r)") (auto dest: reader_Read1_shrinks [OF sym])

declare unframerV11_header.simps [simp del]

text \<open>
  \<open>Read(p)\<close> with \<open>len(p) = n\<close>.  With no chunk open the header is read first.
  Then at most \<open>c.len\<close> bytes are read into \<open>p\<close>; \<open>p[:c.len]\<close> with a negative
  \<open>c.len\<close> would panic (no state reached from \<open>newUnframerV11\<close> has one).
\<close>

definition unframerV11_Read ::
  "nat \<Rightarrow> unframerV11 \<Rightarrow> reader \<Rightarrow> (error + byte list) \<times> unframerV11 \<times> reader" where
  "unframerV11_Read n c r =
     (if err11 c \<noteq> None \<or> n = 0 then
        ((case err11 c of Some e \<Rightarrow> Inl e | None \<Rightarrow> Inr []), c, r)
      else
        (case (if len11 c = 0 then
                 (case unframerV11_start r of
                    (Some e, r1) \<Rightarrow> (Some e, len11 c, r1)
                  | (None, r1) \<Rightarrow> unframerV11_header (len11 c) r1)
               else (None, len11 c, r)) of
           (Some e, l, r2) \<Rightarrow> (Inl e, c\<lparr>len11 := l, err11 := Some e\<rparr>, r2)
         | (None, l, r2) \<Rightarrow>
             (if l < 0 then (Inl (Panic ''slice bounds out of range''), c\<lparr>len11 := l\<rparr>, r2)
              else
                (case reader_Read (if l < int n then nat l else n) r2 of
                   (Inl e, r3) \<Rightarrow>
                     (Inl (eof_is_framing e), c\<lparr>len11 := l, err11 := Some (eof_is_framing e)\<rparr>, r3)
                 | (Inr d, r3) \<Rightarrow> (Inr d, c\<lparr>len11 := l - int (length d)\<rparr>, r3)))))"


lemma reader_Read_le: "rx_size (snd (reader_Read k r)) \<le> rx_size r"
  by (induction k r rule: reader_Read.induct) auto

lemma reader_Read1_le: "reader_Read1 r = (x, r') \<Longrightarrow> rx_size r' \<le> rx_size r"
  using reader_Read_le [of 1 r]
  by (auto simp: reader_Read1_def split: prod.splits sum.splits)

lemma unframerV11_start_le: "unframerV11_start r = (x, r') \<Longrightarrow> rx_size r' \<le> rx_size r"
  unfolding unframerV11_start_def
  by (auto split: prod.splits sum.splits if_splits dest: reader_Read1_le)
     (metis reader_Read1_le order_trans)+

lemma unframerV11_header_le:
  "unframerV11_header l r = (x, l', r') \<Longrightarrow> rx_size r' \<le> rx_size r"
proof (induction l r rule: unframerV11_header.induct)
  case (1 l r)
  from "1.prems" show ?case
    apply (subst (asm) unframerV11_header.simps)
    apply (auto split: prod.splits sum.splits if_splits dest: reader_Read1_le)
    apply (metis (no_types, lifting) "1.IH" reader_Read1_le order_trans)+
    done
qed

lemma unframerV11_start_lt:
  "unframerV11_start r = (None, r') \<Longrightarrow> rx_size r' < rx_size r"
  unfolding unframerV11_start_def
  by (auto split: prod.splits sum.splits if_splits)
     (metis reader_Read1_shrinks reader_Read1_le order_le_less_trans)

lemma reader_Read_le': "reader_Read k r = (x, r') \<Longrightarrow> rx_size r' \<le> rx_size r"
  using reader_Read_le [of k r] by simp

lemma unframerV11_Read_progress:
  assumes "unframerV11_Read n c r = (Inr d, c', r')" and "0 < n"
  shows "rx_size r' < rx_size r"
  using assms
  unfolding unframerV11_Read_def
  apply (auto split: prod.splits sum.splits if_splits option.splits
     dest: reader_Read_shrinks)
   apply (metis unframerV11_start_lt unframerV11_header_le reader_Read_le' order_le_less_trans)+
  done

text \<open>\<open>Close\<close>, as for \<open>unframerV10\<close>.\<close>

function unframerV11_Close :: "unframerV11 \<Rightarrow> reader \<Rightarrow> error option \<times> unframerV11 \<times> reader" where
  "unframerV11_Close c r =
     (case unframerV11_Read 16 c r of
        (Inl e, c', r') \<Rightarrow> (if e = EOF then (None, c', r') else (Some e, c', r'))
      | (Inr d, c', r') \<Rightarrow> unframerV11_Close c' r')"
  by pat_completeness auto
termination
  by (relation "measure (\<lambda>(c, r). rx_size r)")
     (auto dest: unframerV11_Read_progress [OF sym])

declare unframerV11_Close.simps [simp del]


text \<open>
  A caller of an unframer (an XML decoder, \<open>io.ReadAll\<close>) reads until \<open>Read\<close> fails.
  \<open>read_all Read ns c r\<close> is such a caller reading with buffers of the sizes \<open>ns\<close>, one
  \<open>Read\<close> each: it returns the bytes it got, and the error that ended the loop
  (\<open>None\<close> when the sizes ran out first).
\<close>

fun read_all ::
  "(nat \<Rightarrow> 'c \<Rightarrow> reader \<Rightarrow> (error + byte list) \<times> 'c \<times> reader) \<Rightarrow> nat list \<Rightarrow> 'c \<Rightarrow> reader
     \<Rightarrow> (byte list \<times> error option) \<times> 'c \<times> reader" where
  "read_all Read [] c r = (([], None), c, r)"
| "read_all Read (n # ns) c r =
     (case Read n c r of
        (Inl e, c', r') \<Rightarrow> (([], Some e), c', r')
      | (Inr d, c', r') \<Rightarrow>
          (case read_all Read ns c' r' of
             ((ds, e), c'', r'') \<Rightarrow> ((d @ ds, e), c'', r'')))"

text \<open>A writer on which nothing was written yet and no write fails.\<close>

definition new_writer :: writer where
  "new_writer = \<lparr>sent = [], faults = []\<rparr>"

lemma length_eom [simp]: "length eom = 6"
  by (simp add: eom_def)

lemma reader_Read_Data_EOF:
  "concat segs = [] \<Longrightarrow> reader_Read k (map Data segs) = (Inl EOF, [])"
  by (induction segs) auto

lemma reader_Read_Data:
  assumes "0 < k" and "concat segs \<noteq> []"
  shows "\<exists>d segs'. reader_Read k (map Data segs) = (Inr d, map Data segs') \<and> d \<noteq> []
              \<and> length d \<le> k \<and> d @ concat segs' = concat segs"
  using assms(2)
proof (induction segs)
  case Nil
  then show ?case by simp
next
  case (Cons s segs)
  show ?case
  proof (cases "s = []")
    case True
    with Cons show ?thesis by simp
  next
    case False
    have "reader_Read k (map Data (s # segs)) =
        (Inr (take k s), map Data ((if k < length s then [drop k s] else []) @ segs))"
      using False by simp
    moreover have "take k s @ concat ((if k < length s then [drop k s] else []) @ segs) = concat (s # segs)"
      by simp
    moreover have "take k s \<noteq> []" "length (take k s) \<le> k"
      using False assms(1) by simp_all
    ultimately show ?thesis by blast
  qed
qed

definition inv10 :: "unframerV10 \<Rightarrow> bool" where
  "inv10 c = (length (buffer10 c) = 6 \<and> len10 c \<le> 6 \<and> err10 c = None)"

definition pending10 :: "unframerV10 \<Rightarrow> byte list list \<Rightarrow> byte list" where
  "pending10 c segs = take (len10 c) (buffer10 c) @ concat segs"

lemma unframerV10_fill_Data:
  assumes "inv10 c" and "6 \<le> length (pending10 c segs)"
  shows "\<exists>c1 segs1. unframerV10_fill c (map Data segs) = (None, c1, map Data segs1)
           \<and> buffer10 c1 = take 6 (pending10 c segs) \<and> len10 c1 = 6 \<and> err10 c1 = None
           \<and> concat segs1 = drop 6 (pending10 c segs)"
  using assms
proof (induction "6 - len10 c" arbitrary: c segs rule: less_induct)
  case less
  show ?case
  proof (cases "len10 c < 6")
    case False
    with less.prems have l: "len10 c = 6" and b: "length (buffer10 c) = 6" and e: "err10 c = None"
      by (simp_all add: inv10_def)
    then have "unframerV10_fill c (map Data segs) = (None, c, map Data segs)"
      by (simp add: unframerV10_fill.simps [of c])
    with l b e show ?thesis by (auto simp: pending10_def)
  next
    case True
    from less.prems have b: "length (buffer10 c) = 6" and e: "err10 c = None"
      by (simp_all add: inv10_def)
    from True less.prems(2) b have "6 \<le> len10 c + length (concat segs)"
      by (simp add: pending10_def)
    with True have ne: "concat segs \<noteq> []"
      by (metis add.right_neutral list.size(3) not_le)
    from True have k: "0 < 6 - len10 c" by simp
    from reader_Read_Data [OF k ne] obtain d segs' where
      rd: "reader_Read (6 - len10 c) (map Data segs) = (Inr d, map Data segs')"
      and d: "d \<noteq> []" "length d \<le> 6 - len10 c" and cc: "d @ concat segs' = concat segs"
      by blast
    let ?c = "c\<lparr>buffer10 := take (len10 c) (buffer10 c) @ d
                                 @ drop (len10 c + length d) (buffer10 c),
                   len10 := len10 c + length d\<rparr>"
    have step: "unframerV10_fill c (map Data segs) = unframerV10_fill ?c (map Data segs')"
      using True b rd by (simp add: unframerV10_fill.simps [of c])
    have inv: "inv10 ?c"
      using b e d True by (simp add: inv10_def)
    have pend: "pending10 ?c segs' = pending10 c segs"
      using b d True cc [symmetric] by (simp add: pending10_def)
    have lt: "6 - len10 ?c < 6 - len10 c"
      using d True by (cases d) simp_all
    have p6: "6 \<le> length (pending10 ?c segs')"
      using less.prems(2) pend by simp
    from less.hyps [OF lt inv p6] pend step show ?thesis
      by simp
  qed
qed


lemma unframerV10_scan_bounds:
  "i \<le> length buf \<Longrightarrow> i \<le> unframerV10_scan buf i \<and> unframerV10_scan buf i \<le> length buf"
proof (induction buf i rule: unframerV10_scan.induct)
  case (1 buf i)
  then show ?case
    by (subst (1 2) unframerV10_scan.simps) auto
qed

lemma unframerV10_scan_least:
  "i \<le> j \<Longrightarrow> j < length buf \<Longrightarrow> drop j buf = take (length eom - j) eom \<Longrightarrow>
     unframerV10_scan buf i \<le> j"
proof (induction buf i rule: unframerV10_scan.induct)
  case (1 buf i)
  show ?case
  proof (cases "drop i buf = take (length eom - i) eom")
    case True
    with "1.prems" show ?thesis
      by (subst unframerV10_scan.simps) simp
  next
    case False
    with "1.prems" have "i \<noteq> j" by auto
    with "1.prems" have ij: "i + 1 \<le> j" and il: "i < length buf" by simp_all
    from "1.IH" [OF il False ij "1.prems"(2,3)] False il show ?thesis
      by (subst unframerV10_scan.simps) simp
  qed
qed

lemma unframerV10_scan_0:
  "length buf = 6 \<Longrightarrow> unframerV10_scan buf 0 = 0 \<longleftrightarrow> buf = eom"
  using unframerV10_scan_bounds [of 1 buf]
  by (subst unframerV10_scan.simps) auto


text \<open>
  No copy of the sentinel begins inside \<open>B\<close> when \<open>B\<close> is followed by the sentinel:
  neither one that lies in \<open>B\<close>, nor one that starts in \<open>B\<close> and ends in the
  terminator.
\<close>

definition no_early_eom :: "byte list \<Rightarrow> bool" where
  "no_early_eom B =
     list_all (\<lambda>k. take (length eom) (drop k (B @ eom)) \<noteq> eom) [0..<length B]"

lemma no_early_eomD:
  "no_early_eom B \<Longrightarrow> k < length B \<Longrightarrow> take 6 (drop k (B @ eom)) \<noteq> eom"
  by (simp add: no_early_eom_def list_all_iff)

lemma unframerV10_Read_end:
  assumes inv: "inv10 c" and pend: "pending10 c segs = eom"
  shows "\<exists>c' segs'. unframerV10_Read n c (map Data segs) = (Inl EOF, c', map Data segs')
            \<and> concat segs' = [] \<and> err10 c' = Some EOF"
proof -
  from pend have "6 \<le> length (pending10 c segs)" by simp
  from unframerV10_fill_Data [OF inv this] pend obtain c1 segs1 where
    f: "unframerV10_fill c (map Data segs) = (None, c1, map Data segs1)"
    and b: "buffer10 c1 = eom" and cc: "concat segs1 = []"
    by auto
  from b have "unframerV10_scan (buffer10 c1) 0 = 0"
    using unframerV10_scan_0 [of "buffer10 c1"] by simp
  with inv f have "unframerV10_Read n c (map Data segs) = (Inl EOF, c1\<lparr>err10 := Some EOF\<rparr>, map Data segs1)"
    by (simp add: unframerV10_Read_def inv10_def)
  moreover have "err10 (c1\<lparr>err10 := Some EOF\<rparr>) = Some EOF" by simp
  ultimately show ?thesis using cc by blast
qed

lemma unframerV10_Read_step:
  assumes inv: "inv10 c" and pend: "pending10 c segs = drop k (B @ eom)"
    and k: "k < length B" and n: "0 < n" and ne: "no_early_eom B"
  shows "\<exists>d c' segs'. unframerV10_Read n c (map Data segs) = (Inr d, c', map Data segs')
            \<and> d \<noteq> [] \<and> k + length d \<le> length B \<and> d = take (length d) (drop k B)
            \<and> inv10 c' \<and> pending10 c' segs' = drop (k + length d) (B @ eom)"
proof -
  define P where "P = drop k (B @ eom)"
  define W where "W = take 6 P"
  define m where "m = length B - k"
  from k have lenP: "length P = m + 6" by (simp add: P_def m_def)
  then have "6 \<le> length (pending10 c segs)" using pend by (simp add: P_def)
  from unframerV10_fill_Data [OF inv this] pend obtain c1 segs1 where
    f: "unframerV10_fill c (map Data segs) = (None, c1, map Data segs1)"
    and b: "buffer10 c1 = W" and l1: "len10 c1 = 6" and e1: "err10 c1 = None"
    and cc: "concat segs1 = drop 6 P"
    by (auto simp: P_def W_def)
  have lenW: "length W = 6" using lenP by (simp add: W_def)
  from no_early_eomD [OF ne k] have "W \<noteq> eom" by (simp add: W_def P_def)
  with lenW have i0: "unframerV10_scan W 0 \<noteq> 0"
    using unframerV10_scan_0 [of W] by blast
  define i where "i = unframerV10_scan W 0"
  have i6: "i \<le> 6"
    using unframerV10_scan_bounds [of 0 W] lenW by (simp add: i_def)
  have im: "i \<le> m"
  proof (cases "m < 6")
    case False
    with i6 show ?thesis by simp
  next
    case True
    have "drop m W = take (6 - m) (drop m P)"
      by (simp add: drop_take W_def)
    also from k have "drop m P = eom" by (simp add: P_def m_def)
    finally have "drop m W = take (length eom - m) eom" by simp
    from unframerV10_scan_least [OF _ _ this] True lenW show ?thesis by (simp add: i_def)
  qed
  define l where "l = min n i"
  from n i0 have l1': "1 \<le> l" by (simp add: l_def i_def)
  from i6 have l6: "l \<le> 6" by (simp add: l_def)
  from im have lm: "l \<le> m" by (simp add: l_def)
  define d where "d = take l W"
  define c' where "c' = c1\<lparr>buffer10 := drop l W @ drop (length (drop l W)) W,
                  len10 := length (drop l W)\<rparr>"
  from inv f b i0 have rd: "unframerV10_Read n c (map Data segs) = (Inr d, c', map Data segs1)"
    by (simp add: unframerV10_Read_def inv10_def Let_def i_def l_def d_def c'_def)
  have lend: "length d = l" using lenW l6 by (simp add: d_def)
  have dne: "d \<noteq> []" using lend l1' by auto
  have dB: "d = take (length d) (drop k B)"
  proof -
    have "d = take l P" using l6 by (simp add: min_absorb1 d_def W_def)
    also from k have "P = drop k B @ eom" by (simp add: P_def)
    also from lm have "take l (drop k B @ eom) = take l (drop k B)" by (simp add: m_def)
    finally show ?thesis using lend by simp
  qed
  have inv': "inv10 c'" using lenW l6 e1 by (simp add: inv10_def c'_def)
  have "pending10 c' segs1 = drop l W @ drop 6 P"
    using lenW l6 cc by (simp add: pending10_def c'_def)
  also have "\<dots> = drop l (W @ drop 6 P)" using lenW l6 by simp
  also have "W @ drop 6 P = P" by (simp add: W_def)
  also have "drop l P = drop (k + l) (B @ eom)" by (simp only: P_def drop_drop add.commute)
  finally have pend': "pending10 c' segs1 = drop (k + length d) (B @ eom)"
    using lend by simp
  from lm lend have "k + length d \<le> length B" using k by (simp add: m_def)
  with rd dne dB inv' pend' show ?thesis
    by blast
qed


lemma unframerV10_read_all:
  assumes "inv10 c" and "pending10 c segs = drop k (B @ eom)" and "k \<le> length B"
    and "no_early_eom B" and "\<forall>n\<in>set ns. 0 < n" and "length B - k < length ns"
  shows "\<exists>c' segs'. read_all unframerV10_Read ns c (map Data segs)
             = ((drop k B, Some EOF), c', map Data segs')
           \<and> concat segs' = [] \<and> err10 c' = Some EOF"
  using assms
proof (induction ns arbitrary: c segs k)
  case Nil
  then show ?case by simp
next
  case (Cons n ns)
  show ?case
  proof (cases "k = length B")
    case True
    with Cons.prems(2) have "pending10 c segs = eom" by simp
    from unframerV10_Read_end [OF Cons.prems(1) this, of n] True show ?thesis
      by auto
  next
    case False
    with Cons.prems(3) have k: "k < length B" by simp
    from Cons.prems(5) have n: "0 < n" and ns: "\<forall>n\<in>set ns. 0 < n" by simp_all
    from unframerV10_Read_step [OF Cons.prems(1,2) k n Cons.prems(4)]
    obtain d c' segs' where
      rd: "unframerV10_Read n c (map Data segs) = (Inr d, c', map Data segs')"
      and d: "d \<noteq> []" "k + length d \<le> length B" "d = take (length d) (drop k B)"
      and inv': "inv10 c'" and pend': "pending10 c' segs' = drop (k + length d) (B @ eom)"
      by blast
    from d(1) have "Suc 0 \<le> length d" by (cases d) simp_all
    with Cons.prems(6) d(2) have "length B - (k + length d) < length ns" by simp
    from Cons.IH [OF inv' pend' d(2) Cons.prems(4) ns this]
    obtain c'' segs'' where
      ra: "read_all unframerV10_Read ns c' (map Data segs')
             = ((drop (k + length d) B, Some EOF), c'', map Data segs'')"
      and fin: "concat segs'' = []" "err10 c'' = Some EOF"
      by blast
    have "d @ drop (k + length d) B = drop k B"
      by (subst (1) d(3)) (simp add: add.commute [of k] flip: drop_drop)
    with rd ra have "read_all unframerV10_Read (n # ns) c (map Data segs)
             = ((drop k B, Some EOF), c'', map Data segs'')"
      by simp
    with fin show ?thesis by blast
  qed
qed


lemma inv10_new: "inv10 newUnframerV10"
  by (simp add: inv10_def newUnframerV10_def)

lemma pending10_new: "pending10 newUnframerV10 segs = concat segs"
  by (simp add: pending10_def newUnframerV10_def)

lemma unframerV10_Read_sticky:
  "err10 c = Some e \<Longrightarrow> unframerV10_Read n c r = (Inl e, c, r)"
  by (simp add: unframerV10_Read_def)

text \<open>
  Claim C2, as the code has it.  Let \<open>B\<close> be a byte sequence in which no copy of the
  sentinel begins when \<open>B\<close> is followed by the sentinel.  \<open>framerV10.Write\<close> of \<open>B\<close>
  and \<open>Close\<close> succeed on a fresh writer; let the transport deliver the bytes written in
  any segmentation \<open>segs\<close>.  A caller that reads from a new \<open>unframerV10\<close> with
  non-empty buffers, more than \<open>length B\<close> times, gets exactly \<open>B\<close> and then
  \<open>io.EOF\<close>; nothing is left on the transport, and every later \<open>Read\<close> returns
  \<open>io.EOF\<close> again.
\<close>

theorem framerV10_roundtrip:
  assumes "no_early_eom B"
    and "concat segs = sent (snd (framerV10_Close (snd (framerV10_Write B new_writer))))"
    and "0 \<notin> set ns" and "length B < length ns"
  shows "fst (framerV10_Write B new_writer) = (length B, None)
       \<and> fst (framerV10_Close (snd (framerV10_Write B new_writer))) = None
       \<and> fst (read_all unframerV10_Read ns newUnframerV10 (map Data segs)) = (B, Some EOF)
       \<and> flat (snd (snd (read_all unframerV10_Read ns newUnframerV10 (map Data segs)))) = []
       \<and> (case snd (read_all unframerV10_Read ns newUnframerV10 (map Data segs)) of
            (c', r') \<Rightarrow> unframerV10_Read n c' r' = (Inl EOF, c', r'))"
proof -
  have w: "framerV10_Write B new_writer = ((length B, None), \<lparr>sent = B, faults = []\<rparr>)"
    by (simp add: framerV10_Write_def writer_Write_def new_writer_def)
  have c: "framerV10_Close \<lparr>sent = B, faults = []\<rparr> = (None, \<lparr>sent = B @ eom, faults = []\<rparr>)"
    by (simp add: framerV10_Close_def writer_Write_def)
  from assms(2) w c have "pending10 newUnframerV10 segs = drop 0 (B @ eom)"
    by (simp add: pending10_new)
  moreover from assms(3) have "\<forall>n\<in>set ns. 0 < n" by (metis gr0I)
  ultimately obtain c' segs' where
    ra: "read_all unframerV10_Read ns newUnframerV10 (map Data segs)
             = ((drop 0 B, Some EOF), c', map Data segs')"
    and fin: "concat segs' = []" "err10 c' = Some EOF"
    using unframerV10_read_all [OF inv10_new _ _ assms(1), of segs 0 ns] assms(4)
    by auto
  from fin(1) have "flat (map Data segs') = []"
    by (simp add: flat_def comp_def)
  with w c ra unframerV10_Read_sticky [OF fin(2)] show ?thesis
    by simp
qed

text \<open>The message \<open><rpc/>\<close>, delivered in three segments and read four bytes at a time.\<close>

theorem framerV10_roundtrip_witness:
  "fst (read_all unframerV10_Read [4, 4, 4, 4, 4, 4, 4] newUnframerV10
          (map Data [''<r'', ''pc/>]]'', ''>]]>''])) = (''<rpc/>'', Some EOF)"
  using framerV10_roundtrip [of "''<rpc/>''" "[''<r'', ''pc/>]]'', ''>]]>'']" "[4, 4, 4, 4, 4, 4, 4]"]
  by (simp add: no_early_eom_def eom_def framerV10_Close_def framerV10_Write_def writer_Write_def
        new_writer_def)

text \<open>
  Claim C2 as stated asks only that \<open>B\<close> does not contain the sentinel.  \<open>B = "]]>"\<close>
  does not, but the stream written for it is \<open>"]]>]]>]]>"\<close>: the first window the
  unframer fills is a sentinel, so it reports \<open>io.EOF\<close> before any byte of \<open>B\<close>.
\<close>

theorem framerV10_roundtrip_counterexample:
  "(\<forall>k. take (length eom) (drop k '']]>'') \<noteq> eom)
   \<and> fst (read_all unframerV10_Read [16, 16, 16, 16] newUnframerV10
            [Data (sent (snd (framerV10_Close (snd (framerV10_Write '']]>'' new_writer)))))])
       = ([], Some EOF)"
proof
  show "\<forall>k. take (length eom) (drop k '']]>'') \<noteq> eom"
  proof (intro allI notI)
    fix k
    assume "take (length eom) (drop k '']]>'') = eom"
    then have "length (take (length eom) (drop k '']]>'')) = length eom"
      by (rule arg_cong)
    then show False by simp
  qed
  show "fst (read_all unframerV10_Read [16, 16, 16, 16] newUnframerV10
            [Data (sent (snd (framerV10_Close (snd (framerV10_Write '']]>'' new_writer)))))])
       = ([], Some EOF)"
    by code_simp
qed


text \<open>
  A message written in several chunks: \<open>write_all Write ps w\<close> calls \<open>Write\<close> once for
  each chunk of \<open>ps\<close>, in order, and stops at the first error.
\<close>

fun write_all ::
  "(byte list \<Rightarrow> writer \<Rightarrow> (nat \<times> error option) \<times> writer) \<Rightarrow> byte list list \<Rightarrow> writer
     \<Rightarrow> error option \<times> writer" where
  "write_all Write [] w = (None, w)"
| "write_all Write (p # ps) w =
     (case Write p w of
        ((n, Some e), w') \<Rightarrow> (Some e, w')
      | ((n, None), w') \<Rightarrow> write_all Write ps w')"

lemma int64_id: "- (2 ^ 63) \<le> x \<Longrightarrow> x < 2 ^ 63 \<Longrightarrow> int64 x = x"
  by (simp add: int64_def)

definition hstep :: "int \<Rightarrow> byte \<Rightarrow> int" where
  "hstep l b = int64 (l * 10 + (int (of_char b) - 48))"

lemma digit_char:
  assumes "d < 10"
  shows "is_digit (char_of (48 + d))" and "int (of_char (char_of (48 + d))) - 48 = int d"
  using assms by (simp_all add: is_digit_def)

lemma is_digit_not_hash: "is_digit b \<Longrightarrow> b \<noteq> CHR ''#''"
  by (auto simp: is_digit_def)

lemma is_digit_not_LF: "is_digit b \<Longrightarrow> b \<noteq> LF"
  by (auto simp: is_digit_def LF_def)

lemma decimal_digits: "list_all is_digit (decimal n)"
proof (induction n rule: decimal.induct)
  case (1 n)
  then show ?case
    by (subst decimal.simps) (simp add: digit_char)
qed

lemma decimal_value: "n < 2 ^ 63 \<Longrightarrow> foldl hstep 0 (decimal n) = int n"
proof (induction n rule: decimal.induct)
  case (1 n)
  show ?case
  proof (cases "n < 10")
    case True
    with "1.prems" show ?thesis
      by (subst decimal.simps) (simp add: hstep_def digit_char int64_id)
  next
    case False
    from "1.prems" have "n div 10 < 2 ^ 63" by simp
    from "1.IH" [OF False this] have ih: "foldl hstep 0 (decimal (n div 10)) = int (n div 10)" .
    have "n div 10 * 10 + n mod 10 = n" by simp
    then have "int (n div 10) * 10 + int (n mod 10) = int n"
      by (metis of_nat_add of_nat_mult of_nat_numeral)
    with False ih "1.prems" show ?thesis
      by (subst decimal.simps) (simp add: hstep_def digit_char int64_id)
  qed
qed

lemma reader_Read1_Data:
  assumes "concat segs = b # rest"
  shows "\<exists>segs'. reader_Read1 (map Data segs) = (Inr b, map Data segs') \<and> concat segs' = rest"
proof -
  from assms have "concat segs \<noteq> []" by (metis list.distinct(1))
  from reader_Read_Data [OF _ this, of 1] obtain d segs' where
    rd: "reader_Read 1 (map Data segs) = (Inr d, map Data segs')"
    and d: "d \<noteq> []" "length d \<le> 1" and cc: "d @ concat segs' = concat segs"
    by auto
  from d obtain x where dx: "d = [x]" by (cases d) auto
  with cc assms have "x = b" "concat segs' = rest" by simp_all
  with rd dx have "reader_Read1 (map Data segs) = (Inr b, map Data segs')"
    by (simp add: reader_Read1_def)
  with \<open>concat segs' = rest\<close> show ?thesis by blast
qed


lemma unframerV11_start_Data:
  assumes "concat segs = LF # CHR ''#'' # rest"
  shows "\<exists>segs'. unframerV11_start (map Data segs) = (None, map Data segs') \<and> concat segs' = rest"
proof -
  from reader_Read1_Data [OF assms] obtain segs1 where
    r1: "reader_Read1 (map Data segs) = (Inr LF, map Data segs1)"
    and c1: "concat segs1 = CHR ''#'' # rest" by blast
  from reader_Read1_Data [OF c1] obtain segs2 where
    r2: "reader_Read1 (map Data segs1) = (Inr (CHR ''#''), map Data segs2)"
    and c2: "concat segs2 = rest" by blast
  from r1 r2 have "unframerV11_start (map Data segs) = (None, map Data segs2)"
    by (simp add: unframerV11_start_def)
  with c2 show ?thesis by blast
qed

lemma unframerV11_header_end:
  assumes "concat segs = CHR ''#'' # LF # rest"
  shows "\<exists>segs'. unframerV11_header 0 (map Data segs) = (Some EOF, 0, map Data segs')
           \<and> concat segs' = rest"
proof -
  from reader_Read1_Data [OF assms] obtain segs1 where
    r1: "reader_Read1 (map Data segs) = (Inr (CHR ''#''), map Data segs1)"
    and c1: "concat segs1 = LF # rest" by blast
  from reader_Read1_Data [OF c1] obtain segs2 where
    r2: "reader_Read1 (map Data segs1) = (Inr LF, map Data segs2)"
    and c2: "concat segs2 = rest" by blast
  from r1 r2 have "unframerV11_header 0 (map Data segs) = (Some EOF, 0, map Data segs2)"
    by (subst unframerV11_header.simps) simp
  with c2 show ?thesis by blast
qed

lemma unframerV11_header_digits:
  assumes "list_all is_digit ds" and "concat segs = ds @ LF # rest" and "0 < foldl hstep l ds"
  shows "\<exists>segs'. unframerV11_header l (map Data segs) = (None, foldl hstep l ds, map Data segs')
           \<and> concat segs' = rest"
  using assms
proof (induction ds arbitrary: l segs)
  case Nil
  from Nil.prems(2) have "concat segs = LF # rest" by simp
  from reader_Read1_Data [OF this] obtain segs1 where
    r1: "reader_Read1 (map Data segs) = (Inr LF, map Data segs1)"
    and c1: "concat segs1 = rest" by blast
  have "\<not> is_digit LF" by (simp add: is_digit_def LF_def)
  moreover have "LF \<noteq> CHR ''#''" by (simp add: LF_def)
  ultimately have "unframerV11_header l (map Data segs) = (None, l, map Data segs1)"
    using r1 Nil.prems(3) by (subst unframerV11_header.simps) simp
  with c1 show ?case by auto
next
  case (Cons b ds)
  from Cons.prems(1) have b: "is_digit b" and ds: "list_all is_digit ds" by simp_all
  from Cons.prems(2) have "concat segs = b # (ds @ LF # rest)" by simp
  from reader_Read1_Data [OF this] obtain segs1 where
    r1: "reader_Read1 (map Data segs) = (Inr b, map Data segs1)"
    and c1: "concat segs1 = ds @ LF # rest" by blast
  from Cons.prems(3) have pos: "0 < foldl hstep (hstep l b) ds" by simp
  from Cons.IH [OF ds c1 pos] obtain segs' where
    h: "unframerV11_header (hstep l b) (map Data segs1)
          = (None, foldl hstep (hstep l b) ds, map Data segs')"
    and c': "concat segs' = rest" by blast
  from b r1 h is_digit_not_hash [OF b]
  have "unframerV11_header l (map Data segs) = (None, foldl hstep l (b # ds), map Data segs')"
    by (subst unframerV11_header.simps) (simp add: hstep_def)
  with c' show ?case by blast
qed


text \<open>The bytes \<open>framerV11\<close> puts on the wire for one chunk, and for a whole message.\<close>

definition chunkV11 :: "byte list \<Rightarrow> byte list" where
  "chunkV11 p = (if p = [] then [] else [LF, CHR ''#''] @ Itoa (int (length p)) @ [LF] @ p)"

definition wireV11 :: "byte list list \<Rightarrow> byte list" where
  "wireV11 ps = concat (map chunkV11 ps) @ [LF, CHR ''#'', CHR ''#'', LF]"

lemma framerV11_Write_sent:
  "framerV11_Write p \<lparr>sent = s, faults = []\<rparr>
     = ((length p, None), \<lparr>sent = s @ chunkV11 p, faults = []\<rparr>)"
  by (simp add: framerV11_Write_def writer_Write_def chunkV11_def)

lemma write_all_V11:
  "write_all framerV11_Write ps \<lparr>sent = s, faults = []\<rparr>
     = (None, \<lparr>sent = s @ concat (map chunkV11 ps), faults = []\<rparr>)"
  by (induction ps arbitrary: s) (simp_all add: framerV11_Write_sent)

lemma framerV11_Close_sent:
  "framerV11_Close \<lparr>sent = s, faults = []\<rparr>
     = (None, \<lparr>sent = s @ [LF, CHR ''#'', CHR ''#'', LF], faults = []\<rparr>)"
  by (simp add: framerV11_Close_def writer_Write_def)

lemma wireV11_Nil_Cons [simp]: "wireV11 ([] # ps) = wireV11 ps"
  by (simp add: wireV11_def chunkV11_def)

lemma wireV11_Cons:
  "p \<noteq> [] \<Longrightarrow> wireV11 (p # ps) = LF # CHR ''#'' # (Itoa (int (length p)) @ LF # (p @ wireV11 ps))"
  by (simp add: wireV11_def chunkV11_def)

text \<open>The data part of \<open>Read\<close>, once the header part has left \<open>l > 0\<close> bytes to read.\<close>

lemma unframerV11_Read_data:
  assumes e: "err11 c = None" and n: "0 < n"
    and h: "(if len11 c = 0 then
               (case unframerV11_start r of
                  (Some e, r1) \<Rightarrow> (Some e, len11 c, r1)
                | (None, r1) \<Rightarrow> unframerV11_header (len11 c) r1)
             else (None, len11 c, r)) = (None, int (length cur), map Data segs2)"
    and cur: "cur \<noteq> []" and cc: "concat segs2 = cur @ rest"
  shows "\<exists>d c' segs'. unframerV11_Read n c r = (Inr d, c', map Data segs')
          \<and> d \<noteq> [] \<and> d = take (length d) cur \<and> err11 c' = None
          \<and> len11 c' = int (length (drop (length d) cur))
          \<and> concat segs' = drop (length d) cur @ rest"
proof -
  define k where "k = (if int (length cur) < int n then nat (int (length cur)) else n)"
  from cur n have k0: "0 < k" and kc: "k \<le> length cur" by (auto simp: k_def)
  from cc cur have "concat segs2 \<noteq> []" by (metis append_is_Nil_conv)
  from reader_Read_Data [OF k0 this] obtain d segs' where
    rd: "reader_Read k (map Data segs2) = (Inr d, map Data segs')"
    and d: "d \<noteq> []" "length d \<le> k" and c': "d @ concat segs' = concat segs2"
    by blast
  from d kc have ld: "length d \<le> length cur" by simp
  from c' cc have eq: "d @ concat segs' = cur @ rest" by simp
  from eq ld have d1: "d = take (length d) cur"
    by (metis append_eq_append_conv_if append_eq_conv_conj)
  from eq ld have d2: "concat segs' = drop (length d) cur @ rest"
    by (metis append_eq_append_conv_if append_eq_conv_conj)
  from e n h rd have "unframerV11_Read n c r
       = (Inr d, c\<lparr>len11 := int (length cur) - int (length d)\<rparr>, map Data segs')"
    unfolding unframerV11_Read_def k_def by simp
  moreover have "len11 (c\<lparr>len11 := int (length cur) - int (length d)\<rparr>)
       = int (length (drop (length d) cur))"
    using ld by simp
  moreover have "err11 (c\<lparr>len11 := int (length cur) - int (length d)\<rparr>) = None"
    using e by simp
  ultimately show ?thesis using d(1) d1 d2 by blast
qed


definition inv11 :: "unframerV11 \<Rightarrow> byte list \<Rightarrow> byte list list \<Rightarrow> byte list list \<Rightarrow> bool" where
  "inv11 c cur cs segs =
     (err11 c = None \<and> len11 c = int (length cur) \<and> concat segs = cur @ wireV11 cs
      \<and> list_all (\<lambda>p. length p < 2 ^ 63) cs)"

lemma wireV11_empty: "concat cs = [] \<Longrightarrow> wireV11 cs = [LF, CHR ''#'', CHR ''#'', LF]"
  by (induction cs) (simp_all add: wireV11_def chunkV11_def)

lemma unframerV11_Read_end:
  assumes inv: "inv11 c [] cs segs" and n: "0 < n" and emp: "concat cs = []"
  shows "\<exists>c' segs'. unframerV11_Read n c (map Data segs) = (Inl EOF, c', map Data segs')
            \<and> concat segs' = [] \<and> err11 c' = Some EOF"
proof -
  from inv have e: "err11 c = None" and l: "len11 c = 0"
    and cc: "concat segs = LF # CHR ''#'' # CHR ''#'' # LF # []"
    by (simp_all add: inv11_def wireV11_empty [OF emp])
  from unframerV11_start_Data [OF cc] obtain segs1 where
    st: "unframerV11_start (map Data segs) = (None, map Data segs1)"
    and c1: "concat segs1 = CHR ''#'' # LF # []" by blast
  from unframerV11_header_end [OF c1] obtain segs2 where
    hd: "unframerV11_header 0 (map Data segs1) = (Some EOF, 0, map Data segs2)"
    and c2: "concat segs2 = []" by blast
  from e l n st hd have "unframerV11_Read n c (map Data segs)
      = (Inl EOF, c\<lparr>len11 := 0, err11 := Some EOF\<rparr>, map Data segs2)"
    by (simp add: unframerV11_Read_def)
  moreover have "err11 (c\<lparr>len11 := 0, err11 := Some EOF\<rparr>) = Some EOF" by simp
  ultimately show ?thesis using c2 by blast
qed

lemma unframerV11_Read_step:
  assumes "inv11 c cur cs segs" and n: "0 < n" and "cur @ concat cs \<noteq> []"
  shows "\<exists>d c' segs' cur' cs'. unframerV11_Read n c (map Data segs) = (Inr d, c', map Data segs')
            \<and> d \<noteq> [] \<and> d @ cur' @ concat cs' = cur @ concat cs \<and> inv11 c' cur' cs' segs'"
proof (cases "cur = []")
  case False
  from assms(1) have e: "err11 c = None" and l: "len11 c = int (length cur)"
    and cc: "concat segs = cur @ wireV11 cs" and b: "list_all (\<lambda>p. length p < 2 ^ 63) cs"
    by (simp_all add: inv11_def)
  from False l have "(if len11 c = 0 then
               (case unframerV11_start (map Data segs) of
                  (Some e, r1) \<Rightarrow> (Some e, len11 c, r1)
                | (None, r1) \<Rightarrow> unframerV11_header (len11 c) r1)
             else (None, len11 c, map Data segs)) = (None, int (length cur), map Data segs)"
    by simp
  from unframerV11_Read_data [OF e n this False cc] obtain d c' segs' where
    rd: "unframerV11_Read n c (map Data segs) = (Inr d, c', map Data segs')"
    and d: "d \<noteq> []" "d = take (length d) cur" and e': "err11 c' = None"
    and l': "len11 c' = int (length (drop (length d) cur))"
    and c': "concat segs' = drop (length d) cur @ wireV11 cs"
    by blast
  from e' l' c' b have "inv11 c' (drop (length d) cur) cs segs'"
    by (simp add: inv11_def)
  moreover from d(2) have "d @ drop (length d) cur @ concat cs = cur @ concat cs"
    by (metis append_assoc append_take_drop_id)
  ultimately show ?thesis using rd d(1) by blast
next
  case True
  from assms(1,3) show ?thesis unfolding True
  proof (induction cs)
    case Nil
    then show ?case by simp
  next
    case (Cons p ps)
    show ?case
    proof (cases "p = []")
      case True
      with Cons.prems have "inv11 c [] ps segs" and "[] @ concat ps \<noteq> []"
        by (simp_all add: inv11_def)
      from Cons.IH [OF this] True show ?thesis by simp
    next
      case False
      from Cons.prems(1) have e: "err11 c = None" and l: "len11 c = 0"
        and cc: "concat segs = wireV11 (p # ps)"
        and bp: "length p < 2 ^ 63" and b: "list_all (\<lambda>p. length p < 2 ^ 63) ps"
        by (simp_all add: inv11_def)
      from cc have cc': "concat segs
          = LF # CHR ''#'' # (decimal (length p) @ LF # (p @ wireV11 ps))"
        by (simp add: wireV11_Cons [OF False] Itoa_def)
      from unframerV11_start_Data [OF cc'] obtain segs1 where
        st: "unframerV11_start (map Data segs) = (None, map Data segs1)"
        and c1: "concat segs1 = decimal (length p) @ LF # (p @ wireV11 ps)" by blast
      from False bp have "0 < foldl hstep 0 (decimal (length p))"
        by (simp add: decimal_value)
      from unframerV11_header_digits [OF decimal_digits c1 this] bp obtain segs2 where
        hd: "unframerV11_header 0 (map Data segs1) = (None, int (length p), map Data segs2)"
        and c2: "concat segs2 = p @ wireV11 ps"
        by (auto simp: decimal_value)
      from l st hd have "(if len11 c = 0 then
               (case unframerV11_start (map Data segs) of
                  (Some e, r1) \<Rightarrow> (Some e, len11 c, r1)
                | (None, r1) \<Rightarrow> unframerV11_header (len11 c) r1)
             else (None, len11 c, map Data segs)) = (None, int (length p), map Data segs2)"
        by simp
      from unframerV11_Read_data [OF e n this False c2] obtain d c' segs' where
        rd: "unframerV11_Read n c (map Data segs) = (Inr d, c', map Data segs')"
        and d: "d \<noteq> []" "d = take (length d) p" and e': "err11 c' = None"
        and l': "len11 c' = int (length (drop (length d) p))"
        and c': "concat segs' = drop (length d) p @ wireV11 ps"
        by blast
      from e' l' c' b have "inv11 c' (drop (length d) p) ps segs'"
        by (simp add: inv11_def)
      moreover from d(2) have "d @ drop (length d) p @ concat ps = [] @ concat (p # ps)"
        by (metis append_Nil append_assoc append_take_drop_id concat.simps(2))
      ultimately show ?thesis using rd d(1) by blast
    qed
  qed
qed


lemma unframerV11_read_all:
  assumes "inv11 c cur cs segs" and "0 \<notin> set ns" and "length (cur @ concat cs) < length ns"
  shows "\<exists>c' segs'. read_all unframerV11_Read ns c (map Data segs)
             = ((cur @ concat cs, Some EOF), c', map Data segs')
           \<and> concat segs' = [] \<and> err11 c' = Some EOF"
  using assms
proof (induction ns arbitrary: c cur cs segs)
  case Nil
  then show ?case by simp
next
  case (Cons n ns)
  from Cons.prems(2) have n: "0 < n" and ns: "0 \<notin> set ns" by simp_all
  show ?case
  proof (cases "cur @ concat cs = []")
    case True
    then have cur: "cur = []" and emp: "concat cs = []" by simp_all
    from unframerV11_Read_end [OF Cons.prems(1) [unfolded cur] n emp] obtain c' segs' where
      rd: "unframerV11_Read n c (map Data segs) = (Inl EOF, c', map Data segs')"
      and fin: "concat segs' = []" "err11 c' = Some EOF" by blast
    from rd True have "read_all unframerV11_Read (n # ns) c (map Data segs)
             = ((cur @ concat cs, Some EOF), c', map Data segs')"
      by simp
    with fin show ?thesis by blast
  next
    case False
    from unframerV11_Read_step [OF Cons.prems(1) n False] obtain d c' segs' cur' cs' where
      rd: "unframerV11_Read n c (map Data segs) = (Inr d, c', map Data segs')"
      and d: "d \<noteq> []" and eq: "d @ cur' @ concat cs' = cur @ concat cs"
      and inv': "inv11 c' cur' cs' segs'"
      by blast
    from d have "Suc 0 \<le> length d" by (cases d) simp_all
    moreover from eq have "length d + length (cur' @ concat cs') = length (cur @ concat cs)"
      by (metis length_append)
    ultimately have "length (cur' @ concat cs') < length ns"
      using Cons.prems(3) by simp
    from Cons.IH [OF inv' ns this] obtain c'' segs'' where
      ra: "read_all unframerV11_Read ns c' (map Data segs')
             = ((cur' @ concat cs', Some EOF), c'', map Data segs'')"
      and fin: "concat segs'' = []" "err11 c'' = Some EOF"
      by blast
    from rd ra eq have "read_all unframerV11_Read (n # ns) c (map Data segs)
             = ((cur @ concat cs, Some EOF), c'', map Data segs'')"
      by simp
    with fin show ?thesis by blast
  qed
qed

lemma unframerV11_Read_sticky:
  "err11 c = Some e \<Longrightarrow> unframerV11_Read n c r = (Inl e, c, r)"
  by (simp add: unframerV11_Read_def)

text \<open>
  Claim C1.  Let \<open>chunks\<close> be byte sequences (each shorter than \<open>2^63\<close>, as every Go
  slice is).  Writing each with \<open>framerV11.Write\<close> and then calling \<open>Close\<close> succeeds
  on a fresh writer; let the transport deliver the bytes written in any segmentation
  \<open>segs\<close>.  A caller that reads from a new \<open>unframerV11\<close> with non-empty buffers, more
  often than there are payload bytes, gets exactly the concatenation of the chunks and
  then \<open>io.EOF\<close>; nothing is left on the transport, and every later \<open>Read\<close> returns
  \<open>io.EOF\<close> again.
\<close>

theorem framerV11_roundtrip:
  assumes "\<forall>p\<in>set chunks. length p < 2 ^ 63"
    and "concat segs
           = sent (snd (framerV11_Close (snd (write_all framerV11_Write chunks new_writer))))"
    and "0 \<notin> set ns" and "length (concat chunks) < length ns"
  shows "fst (write_all framerV11_Write chunks new_writer) = None
       \<and> fst (framerV11_Close (snd (write_all framerV11_Write chunks new_writer))) = None
       \<and> fst (read_all unframerV11_Read ns newUnframerV11 (map Data segs))
           = (concat chunks, Some EOF)
       \<and> flat (snd (snd (read_all unframerV11_Read ns newUnframerV11 (map Data segs)))) = []
       \<and> (case snd (read_all unframerV11_Read ns newUnframerV11 (map Data segs)) of
            (c', r') \<Rightarrow> unframerV11_Read n c' r' = (Inl EOF, c', r'))"
proof -
  have w: "write_all framerV11_Write chunks new_writer
      = (None, \<lparr>sent = concat (map chunkV11 chunks), faults = []\<rparr>)"
    using write_all_V11 [of chunks "[]"] by (simp add: new_writer_def)
  have c: "framerV11_Close \<lparr>sent = concat (map chunkV11 chunks), faults = []\<rparr>
      = (None, \<lparr>sent = wireV11 chunks, faults = []\<rparr>)"
    by (simp add: framerV11_Close_sent wireV11_def)
  from assms(1,2) w c have "inv11 newUnframerV11 [] chunks segs"
    by (simp add: inv11_def newUnframerV11_def list_all_iff)
  from unframerV11_read_all [OF this assms(3)] assms(4) obtain c' segs' where
    ra: "read_all unframerV11_Read ns newUnframerV11 (map Data segs)
             = ((concat chunks, Some EOF), c', map Data segs')"
    and fin: "concat segs' = []" "err11 c' = Some EOF"
    by auto
  from fin(1) have "flat (map Data segs') = []"
    by (simp add: flat_def comp_def)
  with w c ra unframerV11_Read_sticky [OF fin(2)] show ?thesis
    by simp
qed

text \<open>
  The chunks \<open><rpc-\<close> and \<open>reply/>\<close>, delivered in three segments that cut through a
  chunk header, and read four bytes at a time.
\<close>

theorem framerV11_roundtrip_witness:
  "fst (read_all unframerV11_Read [4, 4, 4, 4, 4, 4, 4, 4, 4, 4, 4, 4, 4] newUnframerV11
          (map Data [[LF, CHR ''#'', CHR ''5'', LF] @ ''<r'',
                     ''pc-'' @ [LF, CHR ''#'', CHR ''7'', LF] @ ''rep'',
                     ''ly/>'' @ [LF, CHR ''#'', CHR ''#'', LF]]))
     = (concat [''<rpc-'', ''reply/>''], Some EOF)"
proof -
  have 1: "\<forall>p\<in>set [''<rpc-'', ''reply/>'']. length p < 2 ^ 63"
    by simp
  have 2: "concat [[LF, CHR ''#'', CHR ''5'', LF] @ ''<r'',
                   ''pc-'' @ [LF, CHR ''#'', CHR ''7'', LF] @ ''rep'',
                   ''ly/>'' @ [LF, CHR ''#'', CHR ''#'', LF]]
      = sent (snd (framerV11_Close
                (snd (write_all framerV11_Write [''<rpc-'', ''reply/>''] new_writer))))"
    by code_simp
  have 3: "0 \<notin> set [4, 4, 4, 4, 4, 4, 4, 4, 4, 4, 4, 4, 4::nat]"
    by simp
  have 4: "length (concat [''<rpc-'', ''reply/>''])
      < length [4, 4, 4, 4, 4, 4, 4, 4, 4, 4, 4, 4, 4::nat]"
    by simp
  show ?thesis
    by (rule framerV11_roundtrip [OF 1 2 3 4, THEN conjunct2, THEN conjunct2, THEN conjunct1])
qed


text \<open>
  Claim C3 asks that every malformed frame ends in \<open>ErrFraming\<close> and never in a normal
  end of stream.  A chunk header whose size is written \<open>0\<close> and is followed by a hash is
  malformed, but the header loop tests \<open>c.len == 0 && p[0] == '#'\<close> after the digit as
  it does before it: the bytes \<open>\n#0#\n\<close> are taken for the end-of-chunks marker and
  \<open>Read\<close> returns \<open>io.EOF\<close>.
\<close>

theorem unframerV11_zero_size_is_end_of_stream:
  "unframerV11_Read 16 newUnframerV11 [Data [LF, CHR ''#'', CHR ''0'', CHR ''#'', LF]]
     = (Inl EOF, \<lparr>len11 = 0, err11 = Some EOF\<rparr>, [])"
  by code_simp

text \<open>So the result at these bytes is not the framing error.\<close>

theorem unframerV11_zero_size_witness:
  "fst (unframerV11_Read 16 newUnframerV11 [Data [LF, CHR ''#'', CHR ''0'', CHR ''#'', LF]])
     \<noteq> Inl ErrFraming"
  using unframerV11_zero_size_is_end_of_stream by simp

section \<open>The operation catalog\<close>

text \<open>\<open>xml.Name\<close>, \<open>xml.Attr\<close> and \<open>xml.StartElement\<close> of \<open>encoding/xml\<close>.\<close>

record xml_name =
  Space :: string
  Local :: string

record xml_attr =
  AttrName :: xml_name
  Value :: string

record start_element =
  Name :: xml_name
  Attr :: "xml_attr list"

definition NsNetconf :: string where
  "NsNetconf = ''urn:ietf:params:xml:ns:netconf:base:1.0''"

definition NsNetconfNotification :: string where
  "NsNetconfNotification = ''urn:ietf:params:xml:ns:netconf:notification:1.0''"

definition NsNetconfMonitoring :: string where
  "NsNetconfMonitoring = ''urn:ietf:params:xml:ns:yang:ietf-netconf-monitoring''"

definition NsTailfActions :: string where
  "NsTailfActions = ''http://tail-f.com/ns/netconf/actions/1.0''"

text \<open>The operation types of the catalog.\<close>

datatype operation =
    Get | GetConfig | EditConfig | CopyConfig | DeleteConfig | Lock | Unlock | KillSession
  | Commit | CommitConfirmed | CancelCommit | DiscardChanges | Validate | ValidateConfig
  | GetSchema | CreateSubscription | Action | TailfAction

text \<open>
  The tag of the \<open>XMLName\<close> field of each type, \<open>`xml:"namespace local"`\<close> or
  \<open>`xml:"local"`\<close>.  \<open>encoding/xml\<close> names the element of a struct value by this tag
  before anything else, so it is the name and namespace the value is encoded with.
\<close>

fun XMLName :: "operation \<Rightarrow> xml_name" where
  "XMLName Get = \<lparr>Space = '''', Local = ''get''\<rparr>"
| "XMLName GetConfig = \<lparr>Space = '''', Local = ''get-config''\<rparr>"
| "XMLName EditConfig = \<lparr>Space = NsNetconf, Local = ''edit-config''\<rparr>"
| "XMLName CopyConfig = \<lparr>Space = NsNetconf, Local = ''copy-config''\<rparr>"
| "XMLName DeleteConfig = \<lparr>Space = NsNetconf, Local = ''delete-config''\<rparr>"
| "XMLName Lock = \<lparr>Space = NsNetconf, Local = ''lock''\<rparr>"
| "XMLName Unlock = \<lparr>Space = NsNetconf, Local = ''lock''\<rparr>"
| "XMLName KillSession = \<lparr>Space = NsNetconf, Local = ''kill-session''\<rparr>"
| "XMLName Commit = \<lparr>Space = NsNetconf, Local = ''commit''\<rparr>"
| "XMLName CommitConfirmed = \<lparr>Space = NsNetconf, Local = ''commit''\<rparr>"
| "XMLName CancelCommit = \<lparr>Space = NsNetconf, Local = ''cancel-commit''\<rparr>"
| "XMLName DiscardChanges = \<lparr>Space = NsNetconf, Local = ''discard-changes''\<rparr>"
| "XMLName Validate = \<lparr>Space = NsNetconf, Local = ''validate''\<rparr>"
| "XMLName ValidateConfig = \<lparr>Space = NsNetconf, Local = ''validate''\<rparr>"
| "XMLName GetSchema = \<lparr>Space = NsNetconfMonitoring, Local = ''get-schema''\<rparr>"
| "XMLName CreateSubscription = \<lparr>Space = NsNetconfNotification, Local = ''create-subscription''\<rparr>"
| "XMLName Action = \<lparr>Space = ''urn:ietf:params:xml:ns:yang:1'', Local = ''action''\<rparr>"
| "XMLName TailfAction = \<lparr>Space = NsTailfActions, Local = ''action''\<rparr>"

text \<open>
  Claim C6 asks that every operation is encoded under its canonical element name, the
  \<open>Unlock\<close> operation as \<open><unlock>\<close> in the base:1.0 namespace.  The \<open>Unlock\<close> type
  carries the tag of \<open>Lock\<close>: an \<open>Unlock\<close> value is encoded as \<open><lock>\<close>, and is the same
  element as a \<open>Lock\<close> with the same target.
\<close>

theorem Unlock_encodes_as_lock:
  "XMLName Unlock = \<lparr>Space = NsNetconf, Local = ''lock''\<rparr>
   \<and> Local (XMLName Unlock) \<noteq> ''unlock'' \<and> XMLName Unlock = XMLName Lock"
  by simp

section \<open>Datastore references\<close>

text \<open>
  What an \<open>xml.Encoder\<close> has been given to write: elements with their start element and
  children, and character data.
\<close>

datatype xml_node = Element start_element "xml_node list" | Text string

text \<open>
  The name \<open>encoding/xml\<close> gives the element of a struct field whose type has an
  \<open>XMLName\<close> field without a tag: the value of that field when its \<open>Local\<close> is not empty;
  otherwise the name of the struct field that holds the value.
\<close>

definition field_element_name :: "xml_name \<Rightarrow> string \<Rightarrow> xml_name" where
  "field_element_name v field = (if Local v \<noteq> '''' then v else \<lparr>Space = '''', Local = field\<rparr>)"

text \<open>
  \<open>e.EncodeElement(v, start)\<close> for a pointer \<open>v\<close> to an anonymous struct whose fields
  encode as \<open>children\<close>: the children wrapped in \<open>start\<close>.  With no name in \<open>start\<close>
  nothing is written and an error is returned (the struct type has no name to fall back
  on).
\<close>

definition EncodeElement_struct ::
  "xml_node list \<Rightarrow> start_element \<Rightarrow> xml_node list \<times> error option" where
  "EncodeElement_struct children start =
     (if Local (Name start) = '''' then ([], Some (OtherError ''xml: unsupported type''))
      else ([Element start children], None))"

text \<open>
  \<open>Datastore.MarshalXML\<close>: a string with a colon is the \<open>URL\<close> field of a struct, tagged
  \<open>url\<close> in the base:1.0 namespace; any other string is the \<open>XMLName\<close> of the field
  \<open>Datastore\<close> of a struct.  The result of \<open>EncodeElement\<close> is dropped and \<open>nil\<close> is
  returned.
\<close>

definition Datastore_MarshalXML :: "string \<Rightarrow> start_element \<Rightarrow> xml_node list \<times> error option" where
  "Datastore_MarshalXML d start =
     (let datastore = d;
          element =
            (if CHR '':'' \<in> set datastore then
               [Element \<lparr>Name = \<lparr>Space = NsNetconf, Local = ''url''\<rparr>, Attr = []\<rparr> [Text datastore]]
             else
               [Element \<lparr>Name = field_element_name \<lparr>Space = '''', Local = datastore\<rparr> ''Datastore'',
                         Attr = []\<rparr> []])
      in (fst (EncodeElement_struct element start), None))"

text \<open>
  Claim C7, as the code has it.  Called with a start element that has a name (the
  encoder always passes one), \<open>MarshalXML\<close> writes that element with one child and
  returns \<open>nil\<close>: for a string with a colon the child is \<open>url\<close> in the base:1.0 namespace
  with the string as its content; for a non-empty string without a colon it is an empty
  element whose local name is the string, in no namespace.
\<close>

theorem Datastore_MarshalXML_encoding:
  assumes "Local (Name start) \<noteq> ''''" and "d \<noteq> ''''"
  shows "Datastore_MarshalXML d start =
     ([Element start
         [if CHR '':'' \<in> set d
          then Element \<lparr>Name = \<lparr>Space = NsNetconf, Local = ''url''\<rparr>, Attr = []\<rparr> [Text d]
          else Element \<lparr>Name = \<lparr>Space = '''', Local = d\<rparr>, Attr = []\<rparr> []]], None)"
  using assms
  by (simp add: Datastore_MarshalXML_def EncodeElement_struct_def field_element_name_def)

text \<open>
  The two examples of the claim, as the \<open>source\<close> of a \<open>get-config\<close>: \<open>running\<close> and
  \<open>http://x/y\<close>.
\<close>

theorem Datastore_MarshalXML_encoding_witness:
  "Datastore_MarshalXML ''running'' \<lparr>Name = \<lparr>Space = '''', Local = ''source''\<rparr>, Attr = []\<rparr>
     = ([Element \<lparr>Name = \<lparr>Space = '''', Local = ''source''\<rparr>, Attr = []\<rparr>
           [Element \<lparr>Name = \<lparr>Space = '''', Local = ''running''\<rparr>, Attr = []\<rparr> []]], None)
   \<and> Datastore_MarshalXML ''http://x/y'' \<lparr>Name = \<lparr>Space = '''', Local = ''source''\<rparr>, Attr = []\<rparr>
     = ([Element \<lparr>Name = \<lparr>Space = '''', Local = ''source''\<rparr>, Attr = []\<rparr>
           [Element \<lparr>Name = \<lparr>Space = NsNetconf, Local = ''url''\<rparr>, Attr = []\<rparr>
              [Text ''http://x/y'']]], None)"
  using Datastore_MarshalXML_encoding
          [of "\<lparr>Name = \<lparr>Space = '''', Local = ''source''\<rparr>, Attr = []\<rparr>" "''running''"]
        Datastore_MarshalXML_encoding
          [of "\<lparr>Name = \<lparr>Space = '''', Local = ''source''\<rparr>, Attr = []\<rparr>" "''http://x/y''"]
  by simp

text \<open>
  Claim C7 as stated covers every datastore string.  The empty string, the value of a
  \<open>Datastore\<close> field that was never set, has no colon; its element cannot take its name
  from the empty \<open>XMLName\<close> and is named after the struct field: \<open><Datastore>\<close>.
\<close>

theorem Datastore_MarshalXML_counterexample:
  "Datastore_MarshalXML '''' \<lparr>Name = \<lparr>Space = '''', Local = ''source''\<rparr>, Attr = []\<rparr>
     = ([Element \<lparr>Name = \<lparr>Space = '''', Local = ''source''\<rparr>, Attr = []\<rparr>
           [Element \<lparr>Name = \<lparr>Space = '''', Local = ''Datastore''\<rparr>, Attr = []\<rparr> []]], None)"
  by (simp add: Datastore_MarshalXML_def EncodeElement_struct_def field_element_name_def)


section \<open>The session layer\<close>

text \<open>
  A session makes its framers and unframers with \<open>newFramer\<close> and \<open>newUnframer\<close>, which
  are \<open>newFramerV10\<close>, \<open>newUnframerV10\<close> or \<open>newFramerV11\<close>, \<open>newUnframerV11\<close>: the pair
  is named by a \<open>codec\<close>, and the calls through \<open>io.WriteCloser\<close> and \<open>io.ReadCloser\<close>
  dispatch on it.
\<close>

datatype codec = V10 | V11

datatype unframer = UnframerV10 unframerV10 | UnframerV11 unframerV11

definition unframer_new :: "codec \<Rightarrow> unframer" where
  "unframer_new cd = (case cd of V10 \<Rightarrow> UnframerV10 newUnframerV10 | V11 \<Rightarrow> UnframerV11 newUnframerV11)"

definition framer_Write :: "codec \<Rightarrow> byte list \<Rightarrow> writer \<Rightarrow> (nat \<times> error option) \<times> writer" where
  "framer_Write cd = (case cd of V10 \<Rightarrow> framerV10_Write | V11 \<Rightarrow> framerV11_Write)"

definition framer_Close :: "codec \<Rightarrow> writer \<Rightarrow> error option \<times> writer" where
  "framer_Close cd = (case cd of V10 \<Rightarrow> framerV10_Close | V11 \<Rightarrow> framerV11_Close)"

fun unframer_Read :: "nat \<Rightarrow> unframer \<Rightarrow> reader \<Rightarrow> (error + byte list) \<times> unframer \<times> reader" where
  "unframer_Read n (UnframerV10 c) r =
     (case unframerV10_Read n c r of (res, c', r') \<Rightarrow> (res, UnframerV10 c', r'))"
| "unframer_Read n (UnframerV11 c) r =
     (case unframerV11_Read n c r of (res, c', r') \<Rightarrow> (res, UnframerV11 c', r'))"

fun unframer_Close :: "unframer \<Rightarrow> reader \<Rightarrow> error option \<times> unframer \<times> reader" where
  "unframer_Close (UnframerV10 c) r =
     (case unframerV10_Close c r of (res, c', r') \<Rightarrow> (res, UnframerV10 c', r'))"
| "unframer_Close (UnframerV11 c) r =
     (case unframerV11_Close c r of (res, c', r') \<Rightarrow> (res, UnframerV11 c', r'))"

text \<open>What an unframer can still deliver: the bytes in its window and on the transport.\<close>

fun unframer_size :: "unframer \<Rightarrow> reader \<Rightarrow> nat" where
  "unframer_size (UnframerV10 c) r = len10 c + rx_size r"
| "unframer_size (UnframerV11 c) r = rx_size r"

lemma unframerV10_fill_le:
  "unframerV10_fill c r = (x, c1, r1) \<Longrightarrow> rx_size r1 \<le> rx_size r"
proof (induction c r rule: unframerV10_fill.induct)
  case (1 c r)
  show ?case
  proof (cases "len10 c < length (buffer10 c)")
    case False
    with "1.prems" show ?thesis by (simp add: unframerV10_fill.simps [of c r])
  next
    case True
    obtain res r' where rd: "reader_Read (length (buffer10 c) - len10 c) r = (res, r')"
      by (cases "reader_Read (length (buffer10 c) - len10 c) r")
    note le = reader_Read_le' [OF rd]
    show ?thesis
    proof (cases res)
      case (Inl e)
      with True rd "1.prems" le show ?thesis
        by (simp add: unframerV10_fill.simps [of c r] Let_def)
    next
      case (Inr d)
      from True rd Inr "1.prems" have "unframerV10_fill
               (c\<lparr>buffer10 := take (len10 c) (buffer10 c) @ d
                                 @ drop (len10 c + length d) (buffer10 c),
                   len10 := len10 c + length d\<rparr>) r' = (x, c1, r1)"
        by (simp add: unframerV10_fill.simps [of c r])
      from "1.IH" [OF True rd [symmetric] Inr this] le show ?thesis by simp
    qed
  qed
qed

lemma unframerV10_Read_le:
  assumes "unframerV10_Read n c r = (res, c', r')"
  shows "rx_size r' \<le> rx_size r"
proof (cases "err10 c")
  case (Some e)
  with assms show ?thesis by (simp add: unframerV10_Read_def)
next
  case None
  obtain x c1 r1 where f: "unframerV10_fill c r = (x, c1, r1)"
    by (cases "unframerV10_fill c r")
  from assms None f have "r' = r1"
    by (cases x; cases "unframerV10_scan (buffer10 c1) 0 = 0")
       (simp_all add: unframerV10_Read_def Let_def)
  with unframerV10_fill_le [OF f] show ?thesis by simp
qed

lemma unframerV10_Read_deliver:
  assumes "unframerV10_Read n c r = (Inr d, c', r')"
  shows "length d + (len10 c' + rx_size r') \<le> len10 c + rx_size r"
proof -
  from assms have e: "err10 c = None"
    by (cases "err10 c") (simp_all add: unframerV10_Read_def)
  obtain x c1 r1 where f: "unframerV10_fill c r = (x, c1, r1)"
    by (cases "unframerV10_fill c r")
  from assms e f have x: "x = None"
    by (cases x) (simp_all add: unframerV10_Read_def)
  define i where "i = unframerV10_scan (buffer10 c1) 0"
  from assms e f x have i: "i \<noteq> 0"
    by (cases "i = 0") (simp_all add: unframerV10_Read_def Let_def i_def)
  from assms e f x i have c': "len10 c' = length (buffer10 c1) - min n i" and r': "r' = r1"
    and d: "d = take (min n i) (buffer10 c1)"
    by (auto simp: unframerV10_Read_def Let_def i_def)
  from unframerV10_fill_full [OF f [unfolded x]] c' r' d show ?thesis
    by (simp add: min_def)
qed


lemma unframerV11_Read_le:
  "unframerV11_Read n c r = (res, c', r') \<Longrightarrow> rx_size r' \<le> rx_size r"
  unfolding unframerV11_Read_def
  apply (auto split: prod.splits sum.splits if_splits option.splits dest: reader_Read_le')
       apply (metis unframerV11_start_le unframerV11_header_le reader_Read_le' order_trans order_refl)+
  done

lemma reader_Read_deliver:
  "reader_Read k r = (Inr d, r') \<Longrightarrow> length d + rx_size r' \<le> rx_size r"
  by (induction k r rule: reader_Read.induct) (auto split: if_splits)

lemma unframerV11_Read_deliver:
  assumes "unframerV11_Read n c r = (Inr d, c', r')"
  shows "length d + rx_size r' \<le> rx_size r"
proof (cases "n = 0")
  case True
  with assms show ?thesis
    by (auto simp: unframerV11_Read_def split: option.splits)
next
  case False
  with assms show ?thesis
    unfolding unframerV11_Read_def
    apply (auto split: prod.splits sum.splits if_splits option.splits dest: reader_Read_deliver)
     apply (metis unframerV11_start_le unframerV11_header_le reader_Read_deliver order_trans)+
    done
qed

lemma unframer_Read_deliver:
  "unframer_Read n u r = (Inr d, u', r') \<Longrightarrow> length d + unframer_size u' r' \<le> unframer_size u r"
  by (cases u)
     (auto split: prod.splits dest: unframerV10_Read_deliver unframerV11_Read_deliver)

lemma unframer_Read_progress:
  "unframer_Read n u r = (Inr d, u', r') \<Longrightarrow> 0 < n \<Longrightarrow> unframer_size u' r' < unframer_size u r"
  by (cases u)
     (auto split: prod.splits dest: unframerV10_Read_progress unframerV11_Read_progress)

lemma unframer_Read_le:
  "unframer_Read n u r = (res, u', r') \<Longrightarrow> rx_size r' \<le> rx_size r"
  by (cases u) (auto split: prod.splits dest: unframerV10_Read_le unframerV11_Read_le)

lemma unframerV10_Close_le:
  "unframerV10_Close c r = (res, c', r') \<Longrightarrow> rx_size r' \<le> rx_size r"
proof (induction c r rule: unframerV10_Close.induct)
  case (1 c r)
  from "1.prems" show ?case
    apply (subst (asm) unframerV10_Close.simps)
    apply (auto split: prod.splits sum.splits if_splits dest: unframerV10_Read_le)
    apply (metis "1.IH" unframerV10_Read_le order_trans)
    done
qed

lemma unframerV11_Close_le:
  "unframerV11_Close c r = (res, c', r') \<Longrightarrow> rx_size r' \<le> rx_size r"
proof (induction c r rule: unframerV11_Close.induct)
  case (1 c r)
  from "1.prems" show ?case
    apply (subst (asm) unframerV11_Close.simps)
    apply (auto split: prod.splits sum.splits if_splits dest: unframerV11_Read_le)
    apply (metis "1.IH" unframerV11_Read_le order_trans)
    done
qed

lemma unframer_Close_le:
  "unframer_Close u r = (res, u', r') \<Longrightarrow> rx_size r' \<le> rx_size r"
  by (cases u) (auto split: prod.splits dest: unframerV10_Close_le unframerV11_Close_le)

lemma unframer_size_new: "unframer_size (unframer_new cd) r = rx_size r"
  by (cases cd) (simp_all add: unframer_new_def newUnframerV10_def)

lemma rx_size_le_unframer_size: "rx_size r \<le> unframer_size u r"
  by (cases u) simp_all


subsection \<open>The XML library\<close>

text \<open>
  \<open>encoding/xml\<close> is not part of the repository: the session layer is verified for every
  behaviour of it, given as a record of functions.  The tokens of \<open>xml.Token\<close>:
\<close>

datatype token =
    StartElement start_element
  | EndElement xml_name
  | CharData string
  | Comment string
  | ProcInst string string
  | Directive string

text \<open>
  What a decoder can say about the input it has read so far: it needs more, it has its
  result, or the input is wrong.
\<close>

datatype 'a progress = More | Result 'a | Failure error

text \<open>
  The hello message: \<open>session-id\<close> (left out when zero) and the capabilities.
\<close>

record hello =
  hello_SessionID :: "64 word"
  hello_Capabilities :: "string list"

text \<open>
  \<^item> \<open>Encode_hello h\<close>, \<open>EncodeElement q start\<close>: the \<open>Write\<close> calls the encoder makes on
    the framer (its buffer flushed), and the error it returns when the value cannot be
    encoded; \<open>'q\<close> are the request values.
  \<^item> \<open>Decode_hello bs\<close>: \<open>Decode\<close> into the hello struct, whose \<open>SessionID\<close> is zero and
    whose \<open>Capabilities\<close> are empty before: a message without \<open>session-id\<close> leaves the
    zero.
  \<^item> \<open>Tokens bs\<close>: the tokens found in \<open>bs\<close>, in order, and the syntax error, if any,
    that stops the tokenizer after them.
  \<^item> \<open>DecodeElement bs i\<close>: \<open>DecodeElement\<close> into the response, of the element that
    token \<open>i\<close> starts; \<open>'p\<close> are the response values.
  \<^item> \<open>EOF_error bs\<close>: what the decoder returns when its reader signals \<open>io.EOF\<close> after
    \<open>bs\<close>: \<open>io.EOF\<close> itself between top-level tokens, a syntax error inside one.
\<close>

record ('q, 'p) xml_lib =
  Encode_hello :: "hello \<Rightarrow> byte list list \<times> error option"
  Decode_hello :: "byte list \<Rightarrow> hello progress"
  EncodeElement :: "'q \<Rightarrow> start_element \<Rightarrow> byte list list \<times> error option"
  Tokens :: "byte list \<Rightarrow> token list \<times> error option"
  DecodeElement :: "byte list \<Rightarrow> nat \<Rightarrow> 'p progress"
  EOF_error :: "byte list \<Rightarrow> error"

text \<open>
  A decoder made by \<open>xml.NewDecoder(reader)\<close> reads from the unframer through a
  \<open>bufio.Reader\<close>, 4096 bytes at most at a time, and only when it needs more input;
  \<open>bs\<close> is what it has read so far.  It reads before it first looks at its input.  An
  error of the unframer is returned as it is, except \<open>io.EOF\<close>.
\<close>

function xml_read ::
  "(byte list \<Rightarrow> 'a progress) \<Rightarrow> (byte list \<Rightarrow> error) \<Rightarrow> byte list \<Rightarrow> unframer \<Rightarrow> reader
     \<Rightarrow> (error + 'a) \<times> byte list \<times> unframer \<times> reader" where
  "xml_read f eof bs u r =
     (case (if bs = [] then More else f bs) of
        Result x \<Rightarrow> (Inr x, bs, u, r)
      | Failure e \<Rightarrow> (Inl e, bs, u, r)
      | More \<Rightarrow>
          (case unframer_Read 4096 u r of
             (Inl e, u', r') \<Rightarrow> (Inl (if e = EOF then eof bs else e), bs, u', r')
           | (Inr d, u', r') \<Rightarrow> xml_read f eof (bs @ d) u' r'))"
  by pat_completeness auto
termination
  by (relation "measure (\<lambda>(f, eof, bs, u, r). unframer_size u r)")
     (auto dest: unframer_Read_progress [OF sym])

declare xml_read.simps [simp del]

text \<open>\<open>decoder.Token()\<close> for token number \<open>i\<close>.\<close>

definition xml_token :: "('q, 'p) xml_lib \<Rightarrow> nat \<Rightarrow> byte list \<Rightarrow> token progress" where
  "xml_token X i bs =
     (case Tokens X bs of
        (ts, e) \<Rightarrow>
          if i < length ts then Result (ts ! i)
          else (case e of Some err \<Rightarrow> Failure err | None \<Rightarrow> More))"

lemma xml_read_Inr:
  "xml_read f eof bs u r = (Inr x, bs', u', r') \<Longrightarrow>
     f bs' = Result x \<and> bs' \<noteq> [] \<and>
     ((bs' = bs \<and> u' = u \<and> r' = r) \<or> unframer_size u' r' < unframer_size u r)"
proof (induction f eof bs u r rule: xml_read.induct)
  case (1 f eof bs u r)
  show ?case
  proof (cases "if bs = [] then More else f bs")
    case (Result y)
    with "1.prems" show ?thesis
      by (auto simp: xml_read.simps [of f eof bs u r] split: if_splits)
  next
    case (Failure e)
    with "1.prems" show ?thesis
      by (simp add: xml_read.simps [of f eof bs u r])
  next
    case More
    obtain res u1 r1 where rd: "unframer_Read 4096 u r = (res, u1, r1)"
      by (cases "unframer_Read 4096 u r")
    show ?thesis
    proof (cases res)
      case (Inl e)
      with More rd "1.prems" show ?thesis
        by (simp add: xml_read.simps [of f eof bs u r])
    next
      case (Inr d)
      from rd Inr have lt: "unframer_size u1 r1 < unframer_size u r"
        using unframer_Read_progress [of 4096 u r d u1 r1] by simp
      from More rd Inr "1.prems" have "xml_read f eof (bs @ d) u1 r1 = (Inr x, bs', u', r')"
        by (simp add: xml_read.simps [of f eof bs u r])
      from "1.IH" [OF More rd [symmetric] Inr refl this] lt show ?thesis
        by auto
    qed
  qed
qed

lemma xml_read_rx_le:
  "xml_read f eof bs u r = (res, bs', u', r') \<Longrightarrow> rx_size r' \<le> rx_size r"
proof (induction f eof bs u r rule: xml_read.induct)
  case (1 f eof bs u r)
  show ?case
  proof (cases "if bs = [] then More else f bs")
    case (Result y)
    with "1.prems" show ?thesis
      by (auto simp: xml_read.simps [of f eof bs u r] split: if_splits)
  next
    case (Failure e)
    with "1.prems" show ?thesis
      by (simp add: xml_read.simps [of f eof bs u r])
  next
    case More
    obtain y u1 r1 where rd: "unframer_Read 4096 u r = (y, u1, r1)"
      by (cases "unframer_Read 4096 u r")
    note le = unframer_Read_le [OF rd]
    show ?thesis
    proof (cases y)
      case (Inl e)
      with More rd "1.prems" le show ?thesis
        by (auto simp: xml_read.simps [of f eof bs u r])
    next
      case (Inr d)
      from More rd Inr "1.prems" have "xml_read f eof (bs @ d) u1 r1 = (res, bs', u', r')"
        by (simp add: xml_read.simps [of f eof bs u r])
      from "1.IH" [OF More rd [symmetric] Inr refl this] le show ?thesis
        by auto
    qed
  qed
qed

lemma xml_read_Inr_size:
  "xml_read f eof bs u r = (Inr x, bs', u', r') \<Longrightarrow>
     length bs' + unframer_size u' r' \<le> length bs + unframer_size u r"
proof (induction f eof bs u r rule: xml_read.induct)
  case (1 f eof bs u r)
  show ?case
  proof (cases "if bs = [] then More else f bs")
    case (Result y)
    with "1.prems" show ?thesis
      by (auto simp: xml_read.simps [of f eof bs u r] split: if_splits)
  next
    case (Failure e)
    with "1.prems" show ?thesis
      by (simp add: xml_read.simps [of f eof bs u r])
  next
    case More
    obtain y u1 r1 where rd: "unframer_Read 4096 u r = (y, u1, r1)"
      by (cases "unframer_Read 4096 u r")
    show ?thesis
    proof (cases y)
      case (Inl e)
      with More rd "1.prems" show ?thesis
        by (auto simp: xml_read.simps [of f eof bs u r])
    next
      case (Inr d)
      from rd Inr have dl: "length d + unframer_size u1 r1 \<le> unframer_size u r"
        using unframer_Read_deliver [of 4096 u r d u1 r1] by simp
      from More rd Inr "1.prems" have "xml_read f eof (bs @ d) u1 r1 = (Inr x, bs', u', r')"
        by (simp add: xml_read.simps [of f eof bs u r])
      from "1.IH" [OF More rd [symmetric] Inr refl this] dl show ?thesis
        by auto
    qed
  qed
qed

lemma xml_token_Result: "xml_token X i bs = Result t \<Longrightarrow> i < length (fst (Tokens X bs))"
  by (auto simp: xml_token_def split: prod.splits if_splits option.splits)

lemma Call_root_decreases:
  assumes "xml_read (xml_token X i) eof bs u r = (Inr t, bs', u', r')"
  shows "((X, i + 1, bs', u', r'), (X, i, bs, u, r))
           \<in> measures [\<lambda>(X, i, bs, u, r). unframer_size u r,
                        \<lambda>(X, i, bs, u, r). length (fst (Tokens X bs)) - i]"
proof -
  from xml_read_Inr [OF assms] have t: "i < length (fst (Tokens X bs'))"
    and c: "(bs' = bs \<and> u' = u \<and> r' = r) \<or> unframer_size u' r' < unframer_size u r"
    by (auto dest: xml_token_Result)
  from c show ?thesis
  proof
    assume "bs' = bs \<and> u' = u \<and> r' = r"
    with t show ?thesis by auto
  next
    assume "unframer_size u' r' < unframer_size u r"
    then show ?thesis by simp
  qed
qed

text \<open>The type assertion \<open>element, ok := token.(xml.StartElement)\<close>.\<close>

fun as_StartElement :: "token \<Rightarrow> start_element option" where
  "as_StartElement (StartElement element) = Some element"
| "as_StartElement t = None"

text \<open>
  The inner loop of \<open>Call\<close>, \<open>for err == nil\<close>: tokens are read until the first start
  element, the root of the document, or an error.  \<open>i\<close> counts the tokens read before.
\<close>

function Call_root ::
  "('q, 'p) xml_lib \<Rightarrow> nat \<Rightarrow> byte list \<Rightarrow> unframer \<Rightarrow> reader
     \<Rightarrow> (error + start_element \<times> nat) \<times> byte list \<times> unframer \<times> reader" where
  "Call_root X i bs u r =
     (case xml_read (xml_token X i) (EOF_error X) bs u r of
        (Inl e, bs', u', r') \<Rightarrow> (Inl e, bs', u', r')
      | (Inr t, bs', u', r') \<Rightarrow>
          (case as_StartElement t of
             Some element \<Rightarrow> (Inr (element, i), bs', u', r')
           | None \<Rightarrow> Call_root X (i + 1) bs' u' r'))"
  by pat_completeness auto
termination
proof (relation "measures [\<lambda>(X, i, bs, u, r). unframer_size u r,
                           \<lambda>(X, i, bs, u, r). length (fst (Tokens X bs)) - i]", goal_cases)
  case 1
  show ?case by simp
next
  case (2 X i bs u r x y t xa ya xb yb)
  then have "xml_read (xml_token X i) (EOF_error X) bs u r = (Inr t, xa, xb, yb)"
    by simp
  then show ?case by (rule Call_root_decreases)
qed

declare Call_root.simps [simp del]

lemma Call_root_rx_le:
  "Call_root X i bs u r = (res, bs', u', r') \<Longrightarrow> rx_size r' \<le> rx_size r"
proof (induction X i bs u r rule: Call_root.induct)
  case (1 X i bs u r)
  obtain y bs1 u1 r1 where rd: "xml_read (xml_token X i) (EOF_error X) bs u r = (y, bs1, u1, r1)"
    by (cases "xml_read (xml_token X i) (EOF_error X) bs u r")
  note le = xml_read_rx_le [OF rd]
  show ?case
  proof (cases y)
    case (Inl e)
    with rd "1.prems" le show ?thesis
      by (simp add: Call_root.simps [of X i bs u r])
  next
    case (Inr t)
    show ?thesis
    proof (cases "as_StartElement t")
      case (Some element)
      with rd Inr "1.prems" le show ?thesis
        by (simp add: Call_root.simps [of X i bs u r])
    next
      case None
      with rd Inr "1.prems" have "Call_root X (i + 1) bs1 u1 r1 = (res, bs', u', r')"
        by (simp add: Call_root.simps [of X i bs u r])
      from "1.IH" [OF rd [symmetric] Inr refl refl None this] le show ?thesis
        by simp
    qed
  qed
qed

lemma Call_root_Inr:
  "Call_root X i bs u r = (Inr x, bs', u', r') \<Longrightarrow>
     bs' \<noteq> [] \<and> length bs' + unframer_size u' r' \<le> length bs + unframer_size u r"
proof (induction X i bs u r rule: Call_root.induct)
  case (1 X i bs u r)
  obtain y bs1 u1 r1 where rd: "xml_read (xml_token X i) (EOF_error X) bs u r = (y, bs1, u1, r1)"
    by (cases "xml_read (xml_token X i) (EOF_error X) bs u r")
  show ?case
  proof (cases y)
    case (Inl e)
    with rd "1.prems" show ?thesis
      by (simp add: Call_root.simps [of X i bs u r])
  next
    case (Inr t)
    from xml_read_Inr [OF rd [unfolded Inr]] xml_read_Inr_size [OF rd [unfolded Inr]]
    have ne: "bs1 \<noteq> []"
      and sz: "length bs1 + unframer_size u1 r1 \<le> length bs + unframer_size u r"
      by simp_all
    show ?thesis
    proof (cases "as_StartElement t")
      case (Some element)
      with rd Inr "1.prems" ne sz show ?thesis
        by (auto simp: Call_root.simps [of X i bs u r])
    next
      case None
      with rd Inr "1.prems" have "Call_root X (i + 1) bs1 u1 r1 = (Inr x, bs', u', r')"
        by (simp add: Call_root.simps [of X i bs u r])
      from "1.IH" [OF rd [symmetric] Inr refl refl None this] sz show ?thesis
        by simp
    qed
  qed
qed

subsection \<open>Sessions\<close>

text \<open>
  \<open>Session\<close>: the session id, the capabilities (URI to parameters), the constructors of
  framers and unframers, named by their codec, and the message counter, a Go \<open>int\<close>.
  The transport the session holds is shared with its framers and unframers; its state is
  passed along: what it will deliver, what was written to it, and whether it is closed.
\<close>

record session =
  SessionID :: "64 word"
  Capabilities :: "string \<rightharpoonup> string"
  newFramer :: codec
  newUnframer :: codec
  messageID :: int

record transport =
  rx :: reader
  tx :: writer
  closed :: bool

text \<open>
  The outer loop of \<open>Call\<close>, \<open>for haveReply := false; !haveReply && err == nil\<close>, entered
  when a response is wanted: each round makes a new unframer and decoder for the next
  message.  A root named \<open>rpc-reply\<close> is decoded into the response and ends the loop; any
  other root is skipped.  The result of \<open>reader.Close()\<close> is not used.
\<close>

function Call_read ::
  "('q, 'p) xml_lib \<Rightarrow> codec \<Rightarrow> reader \<Rightarrow> (error option \<times> 'p option) \<times> reader" where
  "Call_read X cd r =
     (case Call_root X 0 [] (unframer_new cd) r of
        (Inl e, bs, u, r1) \<Rightarrow>
          (case unframer_Close u r1 of (cerr, u2, r2) \<Rightarrow> ((Some e, None), r2))
      | (Inr (element, i), bs, u, r1) \<Rightarrow>
          if Local (Name element) = ''rpc-reply'' then
            (case xml_read (\<lambda>bs. DecodeElement X bs i) (EOF_error X) bs u r1 of
               (res, bs2, u2, r2) \<Rightarrow>
                 (case unframer_Close u2 r2 of
                    (cerr, u3, r3) \<Rightarrow>
                      ((case res of Inl e \<Rightarrow> (Some e, None) | Inr v \<Rightarrow> (None, Some v)), r3)))
          else
            (case unframer_Close u r1 of (cerr, u2, r2) \<Rightarrow> Call_read X cd r2))"
  by pat_completeness auto
termination
proof (relation "measure (\<lambda>(X, cd, r). rx_size r)", goal_cases)
  case 1
  show ?case by simp
next
  case (2 X cd r x y b xa ya xb yb xc yc xd yd xe ye)
  then have root: "Call_root X 0 [] (unframer_new cd) r = (Inr (xa, ya), xb, xc, yc)"
    and cl: "unframer_Close xc yc = (xd, xe, ye)"
    by simp_all
  from Call_root_Inr [OF root] have "xb \<noteq> []"
    and "length xb + unframer_size xc yc \<le> rx_size r"
    by (simp_all add: unframer_size_new)
  then have "rx_size yc < rx_size r"
    using rx_size_le_unframer_size [of yc xc] by (cases xb) simp_all
  with unframer_Close_le [OF cl] show ?case by simp
qed

declare Call_read.simps [simp del]

text \<open>The start element of the \<open>rpc\<close> that \<open>Call\<close> encodes the request in.\<close>

definition rpc_element :: "int \<Rightarrow> start_element" where
  "rpc_element mid =
     \<lparr>Name = \<lparr>Space = ''urn:ietf:params:xml:ns:netconf:base:1.0'', Local = ''rpc''\<rparr>,
      Attr = [\<lparr>AttrName = \<lparr>Space = [], Local = ''message-id''\<rparr>, Value = Itoa mid\<rparr>]\<rparr>"

text \<open>
  Writing a message: the encoder's writes go through a new framer; when they and the
  encoding succeed the framer is closed.
\<close>

definition send_message ::
  "codec \<Rightarrow> byte list list \<times> error option \<Rightarrow> writer \<Rightarrow> error option \<times> writer" where
  "send_message cd enc w =
     (case write_all (framer_Write cd) (fst enc) w of
        (Some e, w') \<Rightarrow> (Some e, w')
      | (None, w') \<Rightarrow>
          (case snd enc of
             Some e \<Rightarrow> (Some e, w')
           | None \<Rightarrow> framer_Close cd w'))"

text \<open>
  \<open>Session.Call(request, response)\<close>; \<open>want\<close> says that \<open>response\<close> is not \<open>nil\<close>.  The
  result is the error and, after a successful decoding, the value of the response.
\<close>

definition Call ::
  "('q, 'p) xml_lib \<Rightarrow> 'q \<Rightarrow> bool \<Rightarrow> session \<Rightarrow> transport
     \<Rightarrow> (error option \<times> 'p option) \<times> session \<times> transport" where
  "Call X request want s T =
     (let s' = s\<lparr>messageID := int64 (messageID s + 1)\<rparr>;
          element = rpc_element (messageID s');
          (err, w) = send_message (newFramer s') (EncodeElement X request element) (tx T)
      in if err = None \<and> want then
           (case Call_read X (newUnframer s') (rx T) of
              (res, r) \<Rightarrow> (res, s', T\<lparr>rx := r, tx := w\<rparr>))
         else ((err, None), s', T\<lparr>tx := w\<rparr>))"

subsection \<open>Opening a session\<close>

definition CapNetconf10 :: string where
  "CapNetconf10 = ''urn:ietf:params:netconf:base:1.0''"

definition CapNetconf11 :: string where
  "CapNetconf11 = ''urn:ietf:params:netconf:base:1.1''"

text \<open>
  \<open>strings.SplitN(capability, "?", 2)\<close>: the part before the first question mark, and
  the part after it, which the loop takes to be empty when there is no question mark.
\<close>

definition split_capability :: "string \<Rightarrow> string \<times> string" where
  "split_capability capability =
     (takeWhile (\<lambda>x. x \<noteq> CHR ''?'') capability,
      drop 1 (dropWhile (\<lambda>x. x \<noteq> CHR ''?'') capability))"

text \<open>The loop over \<open>hello.Capabilities\<close> that fills \<open>session.Capabilities\<close>.\<close>

fun parse_capabilities :: "string list \<Rightarrow> (string \<rightharpoonup> string) \<Rightarrow> (string \<rightharpoonup> string)" where
  "parse_capabilities [] m = m"
| "parse_capabilities (capability # cs) m =
     parse_capabilities cs
       (m(fst (split_capability capability) \<mapsto> snd (split_capability capability)))"

text \<open>
  The first half of \<open>newSession\<close>, the exchange of the hello messages with the 1.0
  framing: the client's hello is encoded and its framer closed; the server's hello is
  decoded from a new reader, which is then closed.  Each error is returned at once.
\<close>

definition newSession_exchange ::
  "('q, 'p) xml_lib \<Rightarrow> session \<Rightarrow> transport \<Rightarrow> (error + hello) \<times> transport" where
  "newSession_exchange X session T =
     (let hello = \<lparr>hello_SessionID = 0, hello_Capabilities = [CapNetconf10, CapNetconf11]\<rparr>
      in case send_message (newFramer session) (Encode_hello X hello) (tx T) of
           (Some e, w) \<Rightarrow> (Inl e, T\<lparr>tx := w\<rparr>)
         | (None, w) \<Rightarrow>
             (case xml_read (Decode_hello X) (EOF_error X) []
                     (unframer_new (newUnframer session)) (rx T) of
                (Inl e, bs, u, r) \<Rightarrow> (Inl e, T\<lparr>rx := r, tx := w\<rparr>)
              | (Inr hello', bs, u, r) \<Rightarrow>
                  (case unframer_Close u r of
                     (Some e, u', r') \<Rightarrow> (Inl e, T\<lparr>rx := r', tx := w\<rparr>)
                   | (None, u', r') \<Rightarrow> (Inr hello', T\<lparr>rx := r', tx := w\<rparr>))))"

text \<open>
  \<open>newSession(transport)\<close>: after the exchange, the session id must not be zero; the
  capabilities are parsed; with base:1.1 among them the framing is switched to 1.1, and
  without base:1.0 either the exchange has failed.
\<close>

definition newSession :: "('q, 'p) xml_lib \<Rightarrow> transport \<Rightarrow> (error + session) \<times> transport" where
  "newSession X T =
     (let session = \<lparr>SessionID = 0, Capabilities = Map.empty, newFramer = V10,
                     newUnframer = V10, messageID = 0\<rparr>
      in case newSession_exchange X session T of
           (Inl e, T') \<Rightarrow> (Inl e, T')
         | (Inr hello, T') \<Rightarrow>
             (let session = session\<lparr>SessionID := hello_SessionID hello\<rparr>
              in if SessionID session = 0 then (Inl ErrCapabilitiesExchange, T')
                 else
                   (let session = session\<lparr>Capabilities :=
                                     parse_capabilities (hello_Capabilities hello) Map.empty\<rparr>
                    in if Capabilities session CapNetconf11 \<noteq> None then
                         (Inr (session\<lparr>newFramer := V11, newUnframer := V11\<rparr>), T')
                       else if Capabilities session CapNetconf10 = None then
                         (Inl ErrCapabilitiesExchange, T')
                       else (Inr session, T'))))"

text \<open>
  The SSH client.  The calls into \<open>golang.org/x/crypto/ssh\<close> are given by their results:
  the errors of \<open>client.NewSession\<close>, \<open>StdinPipe\<close>, \<open>StdoutPipe\<close> and
  \<open>RequestSubsystem("netconf")\<close>; the transport is what the channel of the SSH session
  will carry, and \<open>sshSession.Close()\<close> closes it.
\<close>

record ssh_lib =
  ssh_NewSession :: "error option"
  ssh_StdinPipe :: "error option"
  ssh_StdoutPipe :: "error option"
  ssh_RequestSubsystem :: "error option"

definition sshSessionTransport_init ::
  "('q, 'p) xml_lib \<Rightarrow> ssh_lib \<Rightarrow> transport \<Rightarrow> (error + session) \<times> transport" where
  "sshSessionTransport_init X L T =
     (case ssh_StdinPipe L of
        Some e \<Rightarrow> (Inl e, T)
      | None \<Rightarrow>
          (case ssh_StdoutPipe L of
             Some e \<Rightarrow> (Inl e, T)
           | None \<Rightarrow>
               (case ssh_RequestSubsystem L of
                  Some e \<Rightarrow> (Inl e, T)
                | None \<Rightarrow> newSession X T)))"

text \<open>
  \<open>sshClient.NewSession\<close>.  When \<open>client.NewSession\<close> fails it returns no session:
  \<open>s.sshSession\<close> is \<open>nil\<close>, and \<open>s.sshSession.Close()\<close>, which reads the channel of its
  receiver, panics.
\<close>

definition sshClient_NewSession ::
  "('q, 'p) xml_lib \<Rightarrow> ssh_lib \<Rightarrow> transport \<Rightarrow> (error + session) \<times> transport" where
  "sshClient_NewSession X L T =
     (case ssh_NewSession L of
        None \<Rightarrow>
          (case sshSessionTransport_init X L T of
             (Inr session, T') \<Rightarrow> (Inr session, T')
           | (Inl err, T') \<Rightarrow> (Inl err, T'\<lparr>closed := True\<rparr>))
      | Some err \<Rightarrow> (Inl (Panic ''nil pointer dereference''), T))"

subsection \<open>An XML library to run examples with\<close>

text \<open>
  The theorems about sessions hold for every XML library.  To run the model on
  examples, \<open>tag_xml\<close> is a small one for documents that are a single tag: the tokenizer
  finds the start element once the tag is closed, with the local name up to the first
  space or slash and no namespace; requests are encoded as \<open><rpc/>\<close>, the hello as
  \<open><hello/>\<close>; a response is the bytes of its tag; every hello is decoded as \<open>h\<close>.
\<close>

definition tag_name :: "byte list \<Rightarrow> string" where
  "tag_name bs = takeWhile (\<lambda>x. x \<noteq> CHR ''>'' \<and> x \<noteq> CHR ''/'' \<and> x \<noteq> CHR '' '') (drop 1 bs)"

definition tag_xml :: "hello \<Rightarrow> (unit, byte list) xml_lib" where
  "tag_xml h =
     \<lparr>Encode_hello = (\<lambda>hello. ([''<hello/>''], None)),
      Decode_hello = (\<lambda>bs. if CHR ''>'' \<in> set bs then Result h else More),
      EncodeElement = (\<lambda>q start. ([''<rpc/>''], None)),
      Tokens = (\<lambda>bs. if take 1 bs \<noteq> ''<'' then ([], Some (OtherError ''XML syntax error''))
                      else if CHR ''>'' \<in> set bs
                      then ([StartElement \<lparr>Name = \<lparr>Space = [], Local = tag_name bs\<rparr>, Attr = []\<rparr>],
                            None)
                      else ([], None)),
      DecodeElement = (\<lambda>bs i. if CHR ''>'' \<in> set bs then Result bs else More),
      EOF_error = (\<lambda>bs. if bs = [] then EOF else OtherError ''XML syntax error: unexpected EOF'')\<rparr>"


subsection \<open>The codec after the hello exchange\<close>

text \<open>
  A hello advertises a capability URI when one of its capabilities has this URI before
  its parameters.
\<close>

definition advertises :: "hello \<Rightarrow> string \<Rightarrow> bool" where
  "advertises h uri = (uri \<in> set (map (\<lambda>c. fst (split_capability c)) (hello_Capabilities h)))"

lemma parse_capabilities_None:
  "parse_capabilities cs m uri = None \<longleftrightarrow>
     m uri = None \<and> uri \<notin> set (map (\<lambda>c. fst (split_capability c)) cs)"
  by (induction cs arbitrary: m) auto

lemma newSession_after_exchange:
  assumes "newSession_exchange X
             \<lparr>SessionID = 0, Capabilities = Map.empty, newFramer = V10, newUnframer = V10,
              messageID = 0\<rparr> T = (Inr h, T')"
    and "hello_SessionID h \<noteq> 0"
  shows "newSession X T =
     (if advertises h CapNetconf11 then
        (Inr \<lparr>SessionID = hello_SessionID h,
              Capabilities = parse_capabilities (hello_Capabilities h) Map.empty,
              newFramer = V11, newUnframer = V11, messageID = 0\<rparr>, T')
      else if advertises h CapNetconf10 then
        (Inr \<lparr>SessionID = hello_SessionID h,
              Capabilities = parse_capabilities (hello_Capabilities h) Map.empty,
              newFramer = V10, newUnframer = V10, messageID = 0\<rparr>, T')
      else (Inl ErrCapabilitiesExchange, T'))"
proof -
  have adv: "parse_capabilities (hello_Capabilities h) Map.empty uri = None
               \<longleftrightarrow> \<not> advertises h uri" for uri
    by (simp add: parse_capabilities_None advertises_def)
  from assms show ?thesis
    by (simp add: newSession_def Let_def adv del: not_None_eq)
qed

text \<open>
  Claim C4.  When the hello exchange has succeeded with the server's hello \<open>h\<close>, and the
  session id of \<open>h\<close> is not zero, \<open>newSession\<close> returns a session whose framer and unframer
  are both 1.1 if \<open>h\<close> advertises base:1.1; otherwise one whose framer and unframer are both
  1.0 if \<open>h\<close> advertises base:1.0; otherwise it fails with \<open>ErrCapabilitiesExchange\<close>.
\<close>

theorem newSession_codec:
  assumes "newSession_exchange X
             \<lparr>SessionID = 0, Capabilities = Map.empty, newFramer = V10, newUnframer = V10,
              messageID = 0\<rparr> T = (Inr h, T')"
    and "hello_SessionID h \<noteq> 0"
  shows "newSession X T =
     (if advertises h CapNetconf11 then
        (Inr \<lparr>SessionID = hello_SessionID h,
              Capabilities = parse_capabilities (hello_Capabilities h) Map.empty,
              newFramer = V11, newUnframer = V11, messageID = 0\<rparr>, T')
      else if advertises h CapNetconf10 then
        (Inr \<lparr>SessionID = hello_SessionID h,
              Capabilities = parse_capabilities (hello_Capabilities h) Map.empty,
              newFramer = V10, newUnframer = V10, messageID = 0\<rparr>, T')
      else (Inl ErrCapabilitiesExchange, T'))"
  using assms by (rule newSession_after_exchange)

text \<open>
  The first scenario of the specification: the server's hello carries session id 42 and
  both base capabilities, and the session is switched to the 1.1 framing.
\<close>

theorem newSession_codec_witness:
  "(case fst (newSession
        (tag_xml \<lparr>hello_SessionID = 42, hello_Capabilities = [CapNetconf10, CapNetconf11]\<rparr>)
        \<lparr>rx = [Data ''<hello/>]]>]]>''], tx = new_writer, closed = False\<rparr>) of
      Inr s \<Rightarrow> SessionID s = 42 \<and> newFramer s = V11 \<and> newUnframer s = V11
    | Inl e \<Rightarrow> False)"
proof -
  have ex: "newSession_exchange
       (tag_xml \<lparr>hello_SessionID = 42, hello_Capabilities = [CapNetconf10, CapNetconf11]\<rparr>)
       \<lparr>SessionID = 0, Capabilities = Map.empty, newFramer = V10, newUnframer = V10,
        messageID = 0\<rparr>
       \<lparr>rx = [Data ''<hello/>]]>]]>''], tx = new_writer, closed = False\<rparr>
     = (Inr \<lparr>hello_SessionID = 42, hello_Capabilities = [CapNetconf10, CapNetconf11]\<rparr>,
        \<lparr>rx = [], tx = \<lparr>sent = ''<hello/>]]>]]>'', faults = []\<rparr>, closed = False\<rparr>)"
    by code_simp
  have id: "hello_SessionID \<lparr>hello_SessionID = 42, hello_Capabilities = [CapNetconf10, CapNetconf11]\<rparr> \<noteq> 0"
    by simp
  show ?thesis
    by (subst newSession_codec [OF ex id])
       (simp add: advertises_def split_capability_def CapNetconf10_def CapNetconf11_def)
qed


subsection \<open>A failed open\<close>

lemma newSession_zero_id:
  assumes "newSession_exchange X
             \<lparr>SessionID = 0, Capabilities = Map.empty, newFramer = V10, newUnframer = V10,
              messageID = 0\<rparr> T = (Inr h, T')"
    and "hello_SessionID h = 0"
  shows "newSession X T = (Inl ErrCapabilitiesExchange, T')"
  using assms by (simp add: newSession_def)

lemma sshClient_NewSession_failed_closed:
  assumes "ssh_NewSession L = None" and "sshClient_NewSession X L T = (Inl e, T')"
  shows "closed T' \<and> fst (sshSessionTransport_init X L T) = Inl e"
  using assms
  by (auto simp: sshClient_NewSession_def split: prod.splits sum.splits)

text \<open>
  Claim C8 asks that a failed open, whatever the reason, returns the first error.  When
  opening the SSH session itself fails, with any error \<open>e\<close>, \<open>sshClient.NewSession\<close> calls
  \<open>Close\<close> on the \<open>nil\<close> session and panics instead of returning \<open>e\<close>.
\<close>

theorem sshClient_NewSession_nil_session:
  "sshClient_NewSession X (L\<lparr>ssh_NewSession := Some e\<rparr>) T
     = (Inl (Panic ''nil pointer dereference''), T)"
  by (simp add: sshClient_NewSession_def)

text \<open>For instance when the server refuses the channel.\<close>

theorem sshClient_NewSession_nil_session_witness:
  "fst (sshClient_NewSession
          (tag_xml \<lparr>hello_SessionID = 42, hello_Capabilities = [CapNetconf10]\<rparr>)
          \<lparr>ssh_NewSession = Some (OtherError ''ssh: rejected: administratively prohibited''),
           ssh_StdinPipe = None, ssh_StdoutPipe = None, ssh_RequestSubsystem = None\<rparr>
          \<lparr>rx = [], tx = new_writer, closed = False\<rparr>)
     \<noteq> Inl (OtherError ''ssh: rejected: administratively prohibited'')"
  using sshClient_NewSession_nil_session
    [where X = "tag_xml \<lparr>hello_SessionID = 42, hello_Capabilities = [CapNetconf10]\<rparr>"
       and L = "\<lparr>ssh_NewSession = None, ssh_StdinPipe = None, ssh_StdoutPipe = None,
                 ssh_RequestSubsystem = None\<rparr>"
       and e = "OtherError ''ssh: rejected: administratively prohibited''"
       and T = "\<lparr>rx = [], tx = new_writer, closed = False\<rparr>"]
  by simp

subsection \<open>Message ids\<close>

text \<open>
  The start elements that successive calls of \<open>Call\<close> give to the encoder, each with the
  request and whether a response is wanted.
\<close>

fun Call_elements ::
  "('q, 'p) xml_lib \<Rightarrow> ('q \<times> bool) list \<Rightarrow> session \<Rightarrow> transport \<Rightarrow> start_element list" where
  "Call_elements X [] s T = []"
| "Call_elements X ((request, want) # qs) s T =
     (case Call X request want s T of
        (res, s', T') \<Rightarrow> rpc_element (messageID s') # Call_elements X qs s' T')"

lemma int64_add: "int64 (int64 a + b) = int64 (a + b)"
proof -
  have 1: "int64 a + b + 2 ^ 63 = (a + 2 ^ 63) mod 2 ^ 64 + b"
    by (simp add: int64_def)
  have 2: "((a + 2 ^ 63) mod 2 ^ 64 + b) mod 2 ^ 64 = (a + 2 ^ 63 + b) mod 2 ^ 64"
    by (rule mod_add_left_eq)
  have 3: "a + 2 ^ 63 + b = a + b + (2::int) ^ 63"
    by simp
  have "int64 (int64 a + b) = (int64 a + b + 2 ^ 63) mod 2 ^ 64 - 2 ^ 63"
    by (rule int64_def)
  also have "\<dots> = (a + b + 2 ^ 63) mod 2 ^ 64 - 2 ^ 63"
    by (simp only: 1 2 3)
  also have "\<dots> = int64 (a + b)"
    by (simp only: int64_def)
  finally show ?thesis .
qed

lemma Call_messageID: "messageID (fst (snd (Call X q want s T))) = int64 (messageID s + 1)"
  by (simp add: Call_def Let_def split: prod.splits)

lemma Call_elements_eq:
  "Call_elements X qs s T
     = map (\<lambda>i. rpc_element (int64 (messageID s + int i))) [1..<Suc (length qs)]"
proof (induction qs arbitrary: s T)
  case Nil
  show ?case by simp
next
  case (Cons a qs)
  obtain q want where a: "a = (q, want)" by (cases a)
  obtain res s' T' where c: "Call X q want s T = (res, s', T')"
    by (cases "Call X q want s T")
  from Call_messageID [of X q want s T] c have m: "messageID s' = int64 (messageID s + 1)"
    by simp
  have "[1..<Suc (length (a # qs))] = 1 # map Suc [1..<Suc (length qs)]"
    by (subst upt_rec) (simp add: map_Suc_upt)
  then have "map (\<lambda>i. rpc_element (int64 (messageID s + int i))) [1..<Suc (length (a # qs))]
      = rpc_element (int64 (messageID s + 1))
        # map (\<lambda>i. rpc_element (int64 (messageID s + int (Suc i)))) [1..<Suc (length qs)]"
    by (simp add: comp_def)
  also have "map (\<lambda>i. rpc_element (int64 (messageID s + int (Suc i)))) [1..<Suc (length qs)]
      = map (\<lambda>i. rpc_element (int64 (messageID s' + int i))) [1..<Suc (length qs)]"
  proof -
    have "int64 (messageID s + int (Suc i)) = int64 (messageID s' + int i)" for i
    proof -
      have "messageID s + int (Suc i) = messageID s + 1 + int i" by simp
      then show ?thesis by (simp only: m int64_add)
    qed
    then show ?thesis by (simp only:)
  qed
  finally show ?case
    using a c m Cons.IH [of s' T'] by simp
qed

lemma newSession_messageID: "newSession X T = (Inr s, T') \<Longrightarrow> messageID s = 0"
  by (auto simp: newSession_def Let_def split: prod.splits sum.splits if_splits)

text \<open>
  Claim C5, as the code has it.  On a session that \<open>newSession\<close> has returned, fewer than
  \<open>2^63\<close> calls of \<open>Call\<close>, whatever they send and receive, put the message ids
  \<open>1, 2, 3, \<dots>\<close> in their \<open>rpc\<close> elements, in this order: the ids are strictly increasing
  and the first is 1.
\<close>

theorem Call_message_ids:
  assumes "newSession X T0 = (Inr s, T)" and "length qs < 2 ^ 63"
  shows "Call_elements X qs s T = map (\<lambda>i. rpc_element (int i)) [1..<Suc (length qs)]"
proof -
  from assms(1) have m: "messageID s = 0" by (rule newSession_messageID)
  have "int64 (int i) = int i" if "i \<in> set [1..<Suc (length qs)]" for i
  proof -
    from that have "i \<le> length qs" by auto
    from this assms(2) have "i < 2 ^ 63" by (rule le_less_trans)
    then have "int i < 2 ^ 63" by (metis of_nat_less_iff of_nat_numeral of_nat_power)
    then show ?thesis by (simp add: int64_id)
  qed
  then show ?thesis
    by (simp add: Call_elements_eq m)
qed

lemma digit_chars:
  "char_of (48::nat) = CHR ''0''" "char_of (49::nat) = CHR ''1''" "char_of (50::nat) = CHR ''2''"
  "char_of (51::nat) = CHR ''3''" "char_of (52::nat) = CHR ''4''" "char_of (53::nat) = CHR ''5''"
  "char_of (54::nat) = CHR ''6''" "char_of (55::nat) = CHR ''7''" "char_of (56::nat) = CHR ''8''"
  "char_of (57::nat) = CHR ''9''"
  by code_simp+

lemma tag_xml_newSession:
  "newSession (tag_xml \<lparr>hello_SessionID = 42, hello_Capabilities = [CapNetconf10, CapNetconf11]\<rparr>)
     \<lparr>rx = Data ''<hello/>]]>]]>'' # rest, tx = new_writer, closed = False\<rparr>
   = (Inr \<lparr>SessionID = 42,
           Capabilities = parse_capabilities [CapNetconf10, CapNetconf11] Map.empty,
           newFramer = V11, newUnframer = V11, messageID = 0\<rparr>,
      \<lparr>rx = rest, tx = \<lparr>sent = ''<hello/>]]>]]>'', faults = []\<rparr>, closed = False\<rparr>)"
proof -
  have ex: "newSession_exchange
       (tag_xml \<lparr>hello_SessionID = 42, hello_Capabilities = [CapNetconf10, CapNetconf11]\<rparr>)
       \<lparr>SessionID = 0, Capabilities = Map.empty, newFramer = V10, newUnframer = V10,
        messageID = 0\<rparr>
       \<lparr>rx = Data ''<hello/>]]>]]>'' # rest, tx = new_writer, closed = False\<rparr>
     = (Inr \<lparr>hello_SessionID = 42, hello_Capabilities = [CapNetconf10, CapNetconf11]\<rparr>,
        \<lparr>rx = rest, tx = \<lparr>sent = ''<hello/>]]>]]>'', faults = []\<rparr>, closed = False\<rparr>)"
    by code_simp
  show ?thesis
    by (subst newSession_after_exchange [OF ex])
       (simp_all add: advertises_def split_capability_def CapNetconf10_def CapNetconf11_def)
qed

text \<open>
  A session opened as in the first scenario of the specification; then a call that wants
  no response and one that gets \<open><rpc-reply/>\<close>: the message ids are 1 and 2.
\<close>

theorem Call_message_ids_witness:
  "map (\<lambda>element. Value (hd (Attr element)))
     (Call_elements
        (tag_xml \<lparr>hello_SessionID = 42, hello_Capabilities = [CapNetconf10, CapNetconf11]\<rparr>)
        [((), False), ((), True)]
        \<lparr>SessionID = 42,
          Capabilities = parse_capabilities [CapNetconf10, CapNetconf11] Map.empty,
          newFramer = V11, newUnframer = V11, messageID = 0\<rparr>
        \<lparr>rx = [Data ([LF, CHR ''#'', CHR ''1'', CHR ''2'', LF] @ ''<rpc-reply/>''
                      @ [LF, CHR ''#'', CHR ''#'', LF])],
          tx = \<lparr>sent = ''<hello/>]]>]]>'', faults = []\<rparr>, closed = False\<rparr>)
   = [''1'', ''2'']"
  by (subst Call_message_ids [OF tag_xml_newSession])
     (simp_all add: rpc_element_def Itoa_def decimal.simps digit_chars)

text \<open>
  Claim C5 as stated covers every sequence of calls.  The counter is a Go \<open>int\<close>: the
  call number \<open>2^63\<close> on a session finds it at \<open>2^63 - 1\<close>, the increment wraps around, and
  the message id is \<open>-9223372036854775808\<close>, below every id sent before.
\<close>

theorem Call_message_ids_counterexample:
  "Value (hd (Attr
     (Call_elements
        (tag_xml \<lparr>hello_SessionID = 42, hello_Capabilities = [CapNetconf10, CapNetconf11]\<rparr>)
        (replicate (2 ^ 63) ((), False))
        \<lparr>SessionID = 42,
          Capabilities = parse_capabilities [CapNetconf10, CapNetconf11] Map.empty,
          newFramer = V11, newUnframer = V11, messageID = 0\<rparr>
        \<lparr>rx = [], tx = \<lparr>sent = ''<hello/>]]>]]>'', faults = []\<rparr>, closed = False\<rparr>
      ! (2 ^ 63 - 1))))
   = ''-9223372036854775808''"
proof -
  have "(9223372036854775808::nat) - 1 < length [1..<Suc 9223372036854775808]"
    by simp
  then have "map f [1..<Suc 9223372036854775808] ! (9223372036854775808 - 1)
      = f 9223372036854775808" for f :: "nat \<Rightarrow> start_element"
    by (simp only: nth_map) simp
  then show ?thesis
    by (simp add: Call_elements_eq rpc_element_def int64_def Itoa_def decimal.simps digit_chars)
qed

end
